theory Spec2Isabelle
  imports Main "HOL-Library.Sublist" "HOL-Library.List_Lexorder" "HOL-Library.Multiset"
begin

section \<open>Python strings\<close>

text \<open>
  A Python \<open>str\<close> is a sequence of Unicode code points, and every operation the two
  scripts use (\<open>replace\<close>, \<open>strip\<close>, \<open>lower\<close>, comparison, the csv module) works on
  code points. A string is therefore a list of code points, each a natural number;
  \<open>lit\<close> gives the string of an ASCII literal. Strings compare lexicographically by
  code point, as Python compares them.
\<close>

type_synonym pystr = "nat list"

definition lit :: "string \<Rightarrow> pystr" where
  "lit s = map of_char s"

text \<open>
  \<open>str.isspace\<close> for one code point: the characters \<open>str.strip()\<close> removes when it is
  called without an argument.
\<close>

definition isspace :: "nat \<Rightarrow> bool" where
  "isspace c =
     ((9 \<le> c \<and> c \<le> 13) \<or> (28 \<le> c \<and> c \<le> 32) \<or> c = 133 \<or> c = 160 \<or> c = 5760
      \<or> (8192 \<le> c \<and> c \<le> 8202) \<or> c = 8232 \<or> c = 8233 \<or> c = 8239 \<or> c = 8287
      \<or> c = 12288)"

definition lstrip :: "pystr \<Rightarrow> pystr" where
  "lstrip s = dropWhile isspace s"

definition rstrip :: "pystr \<Rightarrow> pystr" where
  "rstrip s = rev (dropWhile isspace (rev s))"

definition strip :: "pystr \<Rightarrow> pystr" where
  "strip s = rstrip (lstrip s)"

text \<open>
  Lower-casing for the test of the extension: \<open>lower\<close> is \<open>str.lower\<close> on every
  string of code points up to U+00FF. It decides \<open>s.lower() in IMAGE_EXTS\<close> as
  \<open>str.lower\<close> does for every string: no code point beyond ASCII has a lower-case form
  made of letters of the five extensions. The order of the listing depends on the whole
  case table of Unicode, which is Python's and not the repository's: there the
  lower-casing function is a parameter (\<open>str_lower\<close>) of the lister.
\<close>

definition lower_cp :: "nat \<Rightarrow> nat" where
  "lower_cp c =
     (if (65 \<le> c \<and> c \<le> 90) \<or> (192 \<le> c \<and> c \<le> 222 \<and> c \<noteq> 215) then c + 32 else c)"

definition lower :: "pystr \<Rightarrow> pystr" where
  "lower s = map lower_cp s"

text \<open>
  \<open>s.replace(old, new)\<close>: every occurrence of \<open>old\<close> is replaced, scanning from the
  left and continuing after each replaced occurrence. With an empty \<open>old\<close> Python puts
  \<open>new\<close> before every character and at the end.
\<close>

fun replace_nonempty :: "nat \<Rightarrow> pystr \<Rightarrow> pystr \<Rightarrow> pystr \<Rightarrow> pystr" where
  "replace_nonempty a as new [] = []"
| "replace_nonempty a as new (c # cs) =
     (if prefix (a # as) (c # cs) then new @ replace_nonempty a as new (drop (length as) cs)
      else c # replace_nonempty a as new cs)"

definition replace :: "pystr \<Rightarrow> pystr \<Rightarrow> pystr \<Rightarrow> pystr" where
  "replace old new s =
     (case old of
        [] \<Rightarrow> new @ concat (map (\<lambda>c. c # new) s)
      | a # as \<Rightarrow> replace_nonempty a as new s)"

text \<open>\<open>s.rfind(c)\<close>: the highest index of \<open>c\<close> in \<open>s\<close>, or \<open>-1\<close>.\<close>

definition rfind :: "nat \<Rightarrow> pystr \<Rightarrow> int" where
  "rfind c s =
     (if c \<in> set s then int (length s) - 1 - int (length (takeWhile (\<lambda>x. x \<noteq> c) (rev s)))
      else - 1)"

section \<open>Paths\<close>

text \<open>
  \<open>name_suffix\<close> and \<open>name_stem\<close> are \<open>PurePath.suffix\<close> and \<open>PurePath.stem\<close> on the
  final component of a path, as pathlib defines them up to Python 3.13: the suffix
  starts at the last dot, unless that dot is the first or the last character of the
  name.
\<close>

definition name_suffix :: "pystr \<Rightarrow> pystr" where
  "name_suffix name =
     (let i = rfind 46 name
      in if 0 < i \<and> i < int (length name) - 1 then drop (nat i) name else [])"

definition name_stem :: "pystr \<Rightarrow> pystr" where
  "name_stem name =
     (let i = rfind 46 name
      in if 0 < i \<and> i < int (length name) - 1 then take (nat i) name else name)"

text \<open>
  \<open>Path(s).name\<close> on a POSIX system: the path is split at \<open>/\<close>, empty components and
  \<open>.\<close> components are dropped, and the name is the last component left, or the empty
  string.
\<close>

fun split_sep :: "nat \<Rightarrow> pystr \<Rightarrow> pystr list" where
  "split_sep sep [] = [[]]"
| "split_sep sep (c # cs) =
     (case split_sep sep cs of
        [] \<Rightarrow> (if c = sep then [[], []] else [[c]])
      | p # ps \<Rightarrow> (if c = sep then [] # p # ps else (c # p) # ps))"

definition path_name :: "pystr \<Rightarrow> pystr" where
  "path_name s =
     (case rev (filter (\<lambda>x. x \<noteq> [] \<and> x \<noteq> [46]) (split_sep 47 s)) of
        [] \<Rightarrow> []
      | n # _ \<Rightarrow> n)"

definition path_stem :: "pystr \<Rightarrow> pystr" where
  "path_stem s = name_stem (path_name s)"

section \<open>The renderer's figure blocks (generate\_album.py)\<close>

definition escape_html :: "pystr \<Rightarrow> pystr" where
  \<open>escape_html s =
     replace (lit ''"'') (lit ''&quot;'')
       (replace (lit ''>'') (lit ''&gt;'')
         (replace (lit ''<'') (lit ''&lt;'')
           (replace (lit ''&'') (lit ''&amp;'') s)))\<close>

definition escape_attr :: "pystr \<Rightarrow> pystr" where
  \<open>escape_attr s = replace (lit [CHR 0x27]) (lit ''&#39;'') (escape_html s)\<close>

text \<open>
  The title shown for an image without one: fullwidth parentheses around seven kana and
  three kanji ("caption not yet entered").
\<close>

definition caption_placeholder :: pystr where
  "caption_placeholder =
     [65288, 12461, 12515, 12503, 12471, 12519, 12531, 26410, 20837, 21147, 65289]"

definition figure_block :: "pystr \<Rightarrow> pystr \<Rightarrow> pystr \<Rightarrow> pystr" where
  \<open>figure_block filename title note =
     (let title_html = (if title \<noteq> [] then title else caption_placeholder);
          note_html = (if note \<noteq> [] then note else []);
          note_span =
            (if note_html \<noteq> []
             then lit ''\<newline>        <span class="cap-note">'' @ escape_html note_html
                  @ lit ''</span>''
             else [])
      in lit ''    <figure>\<newline>      <a class="thumb" href="images/''
         @ escape_attr filename
         @ lit ''">\<newline>        <img src="images/''
         @ escape_attr filename
         @ lit ''" alt="''
         @ escape_attr (path_stem filename)
         @ lit ''" loading="lazy">\<newline>      </a>\<newline>      <figcaption>\<newline>        <span class="cap-title">''
         @ escape_html title_html
         @ lit ''</span>''
         @ note_span
         @ lit ''\<newline>      </figcaption>\<newline>    </figure>\<newline>'')\<close>

section \<open>The Image Lister\<close>

text \<open>
  The images directory as \<open>iterdir\<close> sees it. A directory is the list of its entries
  in the order in which the operating system enumerates them (Python promises no
  particular order); an entry is a name and what \<open>is_file\<close> finds there.
\<close>

datatype entry_kind = RegularFile | Subdirectory | OtherEntry

type_synonym dir_entry = "pystr \<times> entry_kind"

datatype dir_state = Missing | NotADirectory | Directory "dir_entry list"

datatype csv_error = NewlineInUnquotedField | FieldLargerThanLimit

datatype error =
    SystemExit pystr
  | FileNotFoundError
  | NotADirectoryError
  | UnicodeDecodeError
  | UnicodeEncodeError
  | CsvError csv_error

definition is_file :: "dir_entry \<Rightarrow> bool" where
  "is_file p = (snd p = RegularFile)"

definition IMAGE_EXTS :: "pystr set" where
  "IMAGE_EXTS = {lit ''.jpg'', lit ''.jpeg'', lit ''.png'', lit ''.webp'', lit ''.gif''}"

definition iterdir :: "dir_state \<Rightarrow> error + dir_entry list" where
  "iterdir d =
     (case d of
        Missing \<Rightarrow> Inl FileNotFoundError
      | NotADirectory \<Rightarrow> Inl NotADirectoryError
      | Directory entries \<Rightarrow> Inr entries)"

text \<open>
  \<open>list_images\<close> of sync\_captions.py returns names; \<open>list.sort(key=str.lower)\<close> is a
  stable sort, which \<open>sort_key\<close> is as well. The key function \<open>str_lower\<close> stands for
  \<open>str.lower\<close> on the whole name: what is proved of the lister is proved for every key
  function. The test of the suffix needs the lower-casing into the letters of
  \<open>IMAGE_EXTS\<close> only, which \<open>lower\<close> gives.
\<close>

definition list_images :: "(pystr \<Rightarrow> pystr) \<Rightarrow> dir_state \<Rightarrow> error + pystr list" where
  "list_images str_lower images_dir =
     (case iterdir images_dir of
        Inl e \<Rightarrow> Inl e
      | Inr entries \<Rightarrow>
          Inr (sort_key str_lower
                 (map fst (filter (\<lambda>p. is_file p \<and> lower (name_suffix (fst p)) \<in> IMAGE_EXTS)
                    entries))))"

text \<open>\<open>list_images\<close> of generate\_album.py returns the paths, sorted by their names.\<close>

definition list_images_album :: "(pystr \<Rightarrow> pystr) \<Rightarrow> dir_state \<Rightarrow> error + dir_entry list" where
  "list_images_album str_lower images_dir =
     (case iterdir images_dir of
        Inl e \<Rightarrow> Inl e
      | Inr entries \<Rightarrow>
          Inr (sort_key (\<lambda>p. str_lower (fst p))
                 (filter (\<lambda>p. is_file p \<and> lower (name_suffix (fst p)) \<in> IMAGE_EXTS)
                    entries)))"

section \<open>The caption store (csv module, dialect \<open>excel\<close>)\<close>

text \<open>
  The value of the captions mapping, \<open>{"title": ..., "note": ...}\<close>, and a row handed
  to the writer, \<open>{"filename": ..., "title": ..., "note": ...}\<close>, are dictionaries of a
  fixed shape: records. The row record extends the caption record by the filename.
\<close>

record caption =
  title :: pystr
  "note" :: pystr

record csv_row = caption +
  filename :: pystr

type_synonym captions = "pystr \<rightharpoonup> caption"

subsection \<open>Files and their encoding\<close>

text \<open>
  What a file holds is bytes. \<open>Text t\<close> is the file whose bytes are the UTF-8 encoding
  of the text \<open>t\<close>; \<open>NotUtf8\<close> is a file whose bytes are no UTF-8 at all. A text with a
  lone surrogate (a code point from U+D800 to U+DFFF, as \<open>os.listdir\<close> makes of an
  undecodable byte of a file name) cannot be encoded: writing it raises
  \<open>UnicodeEncodeError\<close>, and bytes that would encode it are refused by the decoder
  like any other bytes that are no UTF-8.
\<close>

datatype disk_file = Text pystr | NotUtf8

definition encodable :: "pystr \<Rightarrow> bool" where
  "encodable s = list_all (\<lambda>c. \<not> (55296 \<le> c \<and> c \<le> 57343)) s"

subsection \<open>Writing\<close>

text \<open>
  \<open>csv.writer\<close> with \<open>QUOTE_MINIMAL\<close>: a field is quoted when it holds the
  delimiter, the quote character or a character of the line terminator \<open>\r\n\<close>; a
  quote character inside is doubled. A record of one empty field is written as \<open>""\<close>.
\<close>

definition needs_quotes :: "pystr \<Rightarrow> bool" where
  "needs_quotes s = list_ex (\<lambda>c. c = 44 \<or> c = 34 \<or> c = 13 \<or> c = 10) s"

definition write_field :: "pystr \<Rightarrow> pystr" where
  "write_field s =
     (if needs_quotes s
      then [34] @ concat (map (\<lambda>c. if c = 34 then [34, 34] else [c]) s) @ [34]
      else s)"

fun join_fields :: "pystr list \<Rightarrow> pystr" where
  "join_fields [] = []"
| "join_fields [f] = write_field f"
| "join_fields (f # g # fs) = write_field f @ [44] @ join_fields (g # fs)"

definition writerow :: "pystr list \<Rightarrow> pystr" where
  "writerow fs = (if fs = [[]] then [34, 34] else join_fields fs) @ [13, 10]"

definition fieldnames :: "pystr list" where
  "fieldnames = [lit ''filename'', lit ''title'', lit ''note'']"

definition dict_to_list :: "csv_row \<Rightarrow> pystr list" where
  "dict_to_list r = [filename r, title r, note r]"

text \<open>
  The csv writer hands every record to the file's \<open>write\<close> on its own, which encodes
  it or raises. \<open>write_records\<close> gives the text written and the exception, if any: a
  record that cannot be encoded ends the writing, and the file, closed by the \<open>with\<close>
  statement, keeps what was written before it.
\<close>

fun write_records :: "pystr \<Rightarrow> pystr list \<Rightarrow> pystr \<times> error option" where
  "write_records out [] = (out, None)"
| "write_records out (r # rs) =
     (if encodable r then write_records (out @ r) rs else (out, Some UnicodeEncodeError))"

text \<open>
  \<open>write_csv\<close>: the file is opened for writing, which empties it; the encoding
  \<open>utf-8-sig\<close> puts the byte-order mark (the code point U+FEFF) before the first text
  written, which is the header; then one record per row.
\<close>

definition write_csv :: "csv_row list \<Rightarrow> pystr \<times> error option" where
  "write_csv rows =
     write_records [65279] (writerow fieldnames # map (\<lambda>r. writerow (dict_to_list r)) rows)"

subsection \<open>Reading\<close>

text \<open>
  Opening the file and decoding it with \<open>utf-8-sig\<close>, which drops one leading
  byte-order mark. Bytes that are no UTF-8 end the read with an exception: the model
  gives \<open>UnicodeDecodeError\<close> for it and does not tell the case apart in which the csv
  reader refuses a line before the decoder reaches the bad bytes. A file opened with
  \<open>newline=""\<close> is iterated line by line, a line ending after \<open>\n\<close>, after
  \<open>\r\n\<close> or after a \<open>\r\<close> that no \<open>\n\<close> follows, and keeping its line end.
\<close>

definition decode_sig :: "pystr \<Rightarrow> pystr" where
  "decode_sig content = (case content of [] \<Rightarrow> [] | c # cs \<Rightarrow> if c = 65279 then cs else c # cs)"

definition read_text :: "disk_file \<Rightarrow> error + pystr" where
  "read_text f =
     (case f of
        NotUtf8 \<Rightarrow> Inl UnicodeDecodeError
      | Text content \<Rightarrow>
          if encodable content then Inr (decode_sig content) else Inl UnicodeDecodeError)"

fun file_lines :: "pystr \<Rightarrow> pystr \<Rightarrow> pystr list" where
  "file_lines cur [] = (if cur = [] then [] else [cur])"
| "file_lines cur [c] = [cur @ [c]]"
| "file_lines cur (c # d # ds) =
     (if c = 10 then (cur @ [c]) # file_lines [] (d # ds)
      else if c = 13 then
        (if d = 10 then (cur @ [c, d]) # file_lines [] ds
         else (cur @ [c]) # file_lines [] (d # ds))
      else file_lines (cur @ [c]) (d # ds))"

text \<open>
  The reader's state machine (\<open>parse_process_char\<close> of the csv module) for the dialect
  \<open>excel\<close>: delimiter \<open>,\<close>, quote character \<open>"\<close> that is doubled inside a quoted
  field, no escape character, not strict. The character \<open>None\<close> is the end of a line.
  The states that only an escape character reaches are left out. Adding a character to
  a field that has reached the module's field size limit raises; the scripts leave the
  limit at its default, 131072. The reader is that of Python 3.11 and later, which takes
  the character NUL as any other.
\<close>

datatype parser_state =
    START_RECORD
  | START_FIELD
  | IN_FIELD
  | IN_QUOTED_FIELD
  | QUOTE_IN_QUOTED_FIELD
  | EAT_CRNL

record reader =
  state :: parser_state
  field :: pystr
  field_list :: "pystr list"

definition field_limit :: nat where
  "field_limit = 131072"

definition parse_reset :: reader where
  "parse_reset = \<lparr>state = START_RECORD, field = [], field_list = []\<rparr>"

definition parse_save_field :: "reader \<Rightarrow> reader" where
  "parse_save_field r = r\<lparr>field_list := field_list r @ [field r], field := []\<rparr>"

definition parse_add_char :: "reader \<Rightarrow> nat \<Rightarrow> parser_state \<Rightarrow> csv_error + reader" where
  "parse_add_char r c st =
     (if field_limit \<le> length (field r) then Inl FieldLargerThanLimit
      else Inr (r\<lparr>field := field r @ [c], state := st\<rparr>))"

definition save_at_line_end :: "reader \<Rightarrow> nat option \<Rightarrow> reader" where
  "save_at_line_end r c =
     (parse_save_field r)\<lparr>state := (if c = None then START_RECORD else EAT_CRNL)\<rparr>"

definition start_field :: "reader \<Rightarrow> nat option \<Rightarrow> csv_error + reader" where
  "start_field r c =
     (case c of
        None \<Rightarrow> Inr (save_at_line_end r c)
      | Some x \<Rightarrow>
          if x = 10 \<or> x = 13 then Inr (save_at_line_end r c)
          else if x = 34 then Inr (r\<lparr>state := IN_QUOTED_FIELD\<rparr>)
          else if x = 44 then Inr (parse_save_field r)
          else parse_add_char r x IN_FIELD)"

definition parse_process_char :: "reader \<Rightarrow> nat option \<Rightarrow> csv_error + reader" where
  "parse_process_char r c =
     (case state r of
        START_RECORD \<Rightarrow>
          (case c of
             None \<Rightarrow> Inr r
           | Some x \<Rightarrow>
               if x = 10 \<or> x = 13 then Inr (r\<lparr>state := EAT_CRNL\<rparr>)
               else start_field (r\<lparr>state := START_FIELD\<rparr>) c)
      | START_FIELD \<Rightarrow> start_field r c
      | IN_FIELD \<Rightarrow>
          (case c of
             None \<Rightarrow> Inr (save_at_line_end r c)
           | Some x \<Rightarrow>
               if x = 10 \<or> x = 13 then Inr (save_at_line_end r c)
               else if x = 44 then Inr ((parse_save_field r)\<lparr>state := START_FIELD\<rparr>)
               else parse_add_char r x IN_FIELD)
      | IN_QUOTED_FIELD \<Rightarrow>
          (case c of
             None \<Rightarrow> Inr r
           | Some x \<Rightarrow>
               if x = 34 then Inr (r\<lparr>state := QUOTE_IN_QUOTED_FIELD\<rparr>)
               else parse_add_char r x IN_QUOTED_FIELD)
      | QUOTE_IN_QUOTED_FIELD \<Rightarrow>
          (case c of
             None \<Rightarrow> Inr (save_at_line_end r c)
           | Some x \<Rightarrow>
               if x = 34 then parse_add_char r x IN_QUOTED_FIELD
               else if x = 44 then Inr ((parse_save_field r)\<lparr>state := START_FIELD\<rparr>)
               else if x = 10 \<or> x = 13 then Inr (save_at_line_end r c)
               else parse_add_char r x IN_FIELD)
      | EAT_CRNL \<Rightarrow>
          (case c of
             None \<Rightarrow> Inr (r\<lparr>state := START_RECORD\<rparr>)
           | Some x \<Rightarrow>
               if x = 10 \<or> x = 13 then Inr r
               else Inl NewlineInUnquotedField))"

text \<open>
  One line of input: the reader's loop over the characters of the line, then the end of
  the line.
\<close>

fun process_chars :: "reader \<Rightarrow> pystr \<Rightarrow> csv_error + reader" where
  "process_chars r [] = Inr r"
| "process_chars r (c # cs) =
     (case parse_process_char r (Some c) of
        Inl e \<Rightarrow> Inl e
      | Inr r' \<Rightarrow> process_chars r' cs)"

definition process_line :: "reader \<Rightarrow> pystr \<Rightarrow> csv_error + reader" where
  "process_line r line =
     (case process_chars r line of
        Inl e \<Rightarrow> Inl e
      | Inr r' \<Rightarrow> parse_process_char r' None)"

text \<open>
  Iterating the reader: a record is complete when a line ends in the state
  \<open>START_RECORD\<close>; otherwise the next line continues it. When the lines run out inside a
  quoted field the record read so far is returned.
\<close>

fun read_records :: "reader \<Rightarrow> pystr list \<Rightarrow> csv_error + pystr list list" where
  "read_records r [] =
     (if field r \<noteq> [] \<or> state r = IN_QUOTED_FIELD
      then Inr [field_list (parse_save_field r)] else Inr [])"
| "read_records r (l # ls) =
     (case process_line r l of
        Inl e \<Rightarrow> Inl e
      | Inr r' \<Rightarrow>
          if state r' = START_RECORD
          then (case read_records parse_reset ls of
                  Inl e \<Rightarrow> Inl e
                | Inr recs \<Rightarrow> Inr (field_list r' # recs))
          else read_records r' ls)"

definition csv_reader :: "pystr \<Rightarrow> csv_error + pystr list list" where
  "csv_reader text = read_records parse_reset (file_lines [] text)"

text \<open>
  For the proofs: the reader fed with the text character by character, without the
  detour over the list of lines. The flag tells whether the line being read has a
  character already. \<open>csv_reader\<close> is shown to be \<open>feed parse_reset False\<close>.
\<close>

fun feed :: "reader \<Rightarrow> bool \<Rightarrow> pystr \<Rightarrow> csv_error + pystr list list" where
  "feed r b [] =
     (if b then
        (case parse_process_char r None of
           Inl e \<Rightarrow> Inl e
         | Inr r' \<Rightarrow>
             if state r' = START_RECORD then Inr [field_list r'] else read_records r' [])
      else read_records r [])"
| "feed r b (c # t) =
     (case parse_process_char r (Some c) of
        Inl e \<Rightarrow> Inl e
      | Inr r1 \<Rightarrow>
          if c = 10 \<or> (c = 13 \<and> (case t of [] \<Rightarrow> True | d # _ \<Rightarrow> d \<noteq> 10))
          then
            (case parse_process_char r1 None of
               Inl e \<Rightarrow> Inl e
             | Inr r2 \<Rightarrow>
                 if state r2 = START_RECORD
                 then (case feed parse_reset False t of
                         Inl e \<Rightarrow> Inl e
                       | Inr recs \<Rightarrow> Inr (field_list r2 # recs))
                 else feed r2 False t)
          else feed r1 True t)"

text \<open>For the proofs as well: what the reader does at the end of a line.\<close>

definition line_end ::
  "reader \<Rightarrow> (reader \<Rightarrow> csv_error + pystr list list) \<Rightarrow> csv_error + pystr list list" where
  "line_end r1 k =
     (case parse_process_char r1 None of
        Inl e \<Rightarrow> Inl e
      | Inr r2 \<Rightarrow>
          if state r2 = START_RECORD
          then (case k parse_reset of Inl e \<Rightarrow> Inl e | Inr recs \<Rightarrow> Inr (field_list r2 # recs))
          else k r2)"

text \<open>
  \<open>csv.DictReader\<close>: the first record gives the field names, empty records after it
  are skipped, and a row is the dictionary of its values by field name (for a repeated
  name the last value); the names that a short row leaves without a value are then set
  to \<open>None\<close>, also when an earlier column gave the name a value. \<open>row.get(name) or ""\<close>
  does not tell a name with the value \<open>None\<close> apart from a name that is no key, so both
  are no key here. The values beyond the names, which a long row has, are stored under
  the key \<open>None\<close>, which is no name.
\<close>

definition row_dict :: "pystr list \<Rightarrow> pystr list \<Rightarrow> (pystr \<rightharpoonup> pystr)" where
  "row_dict names row =
     fold (\<lambda>key d. d(key := None)) (drop (length row) names) (map_of (rev (zip names row)))"

definition DictReader :: "pystr list list \<Rightarrow> (pystr \<rightharpoonup> pystr) list" where
  "DictReader recs =
     (case recs of
        [] \<Rightarrow> []
      | names # rest \<Rightarrow> map (row_dict names) (filter (\<lambda>row. row \<noteq> []) rest))"

definition get_or_empty :: "(pystr \<rightharpoonup> pystr) \<Rightarrow> pystr \<Rightarrow> pystr" where
  "get_or_empty row key = (case row key of None \<Rightarrow> [] | Some v \<Rightarrow> v)"

text \<open>The body of the loop over the rows, the same in both scripts.\<close>

definition add_row :: "(pystr \<rightharpoonup> pystr) \<Rightarrow> captions \<Rightarrow> captions" where
  "add_row row data =
     (let fn = strip (get_or_empty row (lit ''filename''))
      in if fn = [] then data
         else data(fn \<mapsto> \<lparr>title = strip (get_or_empty row (lit ''title'')),
                          note = strip (get_or_empty row (lit ''note''))\<rparr>))"

text \<open>
  \<open>read_existing\<close> (sync\_captions.py) and \<open>load_captions\<close> (generate\_album.py) take
  the caption file, or \<open>None\<close> when the file does not exist.
\<close>

definition read_existing :: "disk_file option \<Rightarrow> error + captions" where
  "read_existing csv_file =
     (case csv_file of
        None \<Rightarrow> Inr Map.empty
      | Some f \<Rightarrow>
          (case read_text f of
             Inl e \<Rightarrow> Inl e
           | Inr content \<Rightarrow>
               (case csv_reader content of
                  Inl e \<Rightarrow> Inl (CsvError e)
                | Inr recs \<Rightarrow> Inr (fold add_row (DictReader recs) Map.empty))))"

definition load_captions :: "disk_file option \<Rightarrow> error + captions" where
  "load_captions csv_file =
     (case csv_file of
        None \<Rightarrow> Inr Map.empty
      | Some f \<Rightarrow>
          (case read_text f of
             Inl e \<Rightarrow> Inl e
           | Inr content \<Rightarrow>
               (case csv_reader content of
                  Inl e \<Rightarrow> Inl (CsvError e)
                | Inr recs \<Rightarrow> Inr (fold add_row (DictReader recs) Map.empty))))"

section \<open>The two entry points\<close>

text \<open>
  The part of the file system the scripts touch: the images directory (with the text
  of its path, which the error message shows), the caption file and the page, each of
  them \<open>None\<close> when it does not exist and otherwise a file that may be read and
  written. An entry point returns what it reports, or the exception that ends it,
  together with the file system it leaves. The lower-casing that orders the listing is
  the argument \<open>str_lower\<close> of both entry points.
\<close>

record filesystem =
  images_path :: pystr
  images_dir :: dir_state
  captions_csv :: "disk_file option"
  out_html :: "disk_file option"

definition exists :: "dir_state \<Rightarrow> bool" where
  "exists d = (d \<noteq> Missing)"

text \<open>
  The message of the \<open>SystemExit\<close>: the word \<open>images\<close>, "directory not found" in
  Japanese, a colon, and the path. Python prints the message of an uncaught
  \<open>SystemExit\<close> and ends the process with status 1, as it does for any other uncaught
  exception.
\<close>

definition missing_message :: "pystr \<Rightarrow> pystr" where
  "missing_message path =
     lit ''images '' @ [12487, 12451, 12524, 12463, 12488, 12522, 12364, 35211, 12388, 12363,
       12426, 12414, 12379, 12435] @ lit '': '' @ path"

definition exit_status :: "error + 'a \<Rightarrow> nat" where
  "exit_status outcome = (case outcome of Inl e \<Rightarrow> 1 | Inr v \<Rightarrow> 0)"

subsection \<open>sync\_captions.py\<close>

text \<open>
  The loop of \<open>main\<close> over the images, with the rows collected so far and the counter
  of new rows.
\<close>

fun sync_loop :: "captions \<Rightarrow> pystr list \<Rightarrow> csv_row list \<times> nat \<Rightarrow> csv_row list \<times> nat" where
  "sync_loop existing [] (rows, added) = (rows, added)"
| "sync_loop existing (fn # images) (rows, added) =
     (case existing fn of
        Some c \<Rightarrow>
          sync_loop existing images
            (rows @ [\<lparr>title = title c, note = note c, filename = fn\<rparr>], added)
      | None \<Rightarrow>
          sync_loop existing images
            (rows @ [\<lparr>title = [], note = [], filename = fn\<rparr>], added + 1))"

text \<open>
  The report is what \<open>main\<close> prints: the number of images and of new rows. When the
  writing raises, nothing is printed, and the caption file keeps what was written until
  then.
\<close>

definition main_sync :: "(pystr \<Rightarrow> pystr) \<Rightarrow> filesystem \<Rightarrow> (error + nat \<times> nat) \<times> filesystem" where
  "main_sync str_lower fs =
     (if \<not> exists (images_dir fs) then (Inl (SystemExit (missing_message (images_path fs))), fs)
      else
        case list_images str_lower (images_dir fs) of
          Inl e \<Rightarrow> (Inl e, fs)
        | Inr images \<Rightarrow>
            (case read_existing (captions_csv fs) of
               Inl e \<Rightarrow> (Inl e, fs)
             | Inr existing \<Rightarrow>
                 (case sync_loop existing images ([], 0) of
                    (rows, added) \<Rightarrow>
                      (case write_csv rows of
                         (content, err) \<Rightarrow>
                           ((case err of
                               None \<Rightarrow> Inr (length images, added)
                             | Some e \<Rightarrow> Inl e),
                            fs\<lparr>captions_csv := Some (Text content)\<rparr>)))))"

subsection \<open>generate\_album.py\<close>

fun blocks_loop :: "captions \<Rightarrow> dir_entry list \<Rightarrow> pystr list \<Rightarrow> pystr list" where
  "blocks_loop captions [] blocks = blocks"
| "blocks_loop captions (p # images) blocks =
     (let cap = captions (fst p)
      in blocks_loop captions images
           (blocks @ [figure_block (fst p)
                        (case cap of None \<Rightarrow> [] | Some c \<Rightarrow> title c)
                        (case cap of None \<Rightarrow> [] | Some c \<Rightarrow> note c)]))"

text \<open>
  The page template. The figures are inserted with their trailing whitespace removed,
  and the time of generation is inserted as it was formatted by the caller.
\<close>

definition build_html :: "pystr \<Rightarrow> pystr \<Rightarrow> pystr" where
  \<open>build_html figures generated_iso =
     lit ''<!doctype html>\<newline>''
     @ lit ''<html lang="ja">\<newline>''
     @ lit ''<head>\<newline>''
     @ lit ''  <meta charset="utf-8" />\<newline>''
     @ lit ''  <meta name="viewport" content="width=device-width, initial-scale=1" />\<newline>''
     @ lit ''  <title>'' @ [12450, 12523, 12496, 12512] @ lit ''</title>\<newline>''
     @ lit ''  <style>\<newline>''
     @ lit ''    :root { --gap: 10px; --max: 1100px; }\<newline>''
     @ lit ''\<newline>''
     @ lit ''    body {\<newline>''
     @ lit ''      margin: 0;\<newline>''
     @ lit ''      font-family: system-ui, -apple-system, "Hiragino Sans", "Noto Sans JP", sans-serif;\<newline>''
     @ lit ''      background: #fff;\<newline>''
     @ lit ''      color: #111;\<newline>''
     @ lit ''    }\<newline>''
     @ lit ''\<newline>''
     @ lit ''    header {\<newline>''
     @ lit ''      max-width: var(--max);\<newline>''
     @ lit ''      margin: 24px auto 8px;\<newline>''
     @ lit ''      padding: 0 16px;\<newline>''
     @ lit ''    }\<newline>''
     @ lit ''    h1 { font-size: 1.2rem; margin: 0; font-weight: 600; }\<newline>''
     @ lit ''    p  { margin: 8px 0 0; font-size: 0.95rem; color: #444; }\<newline>''
     @ lit ''\<newline>''
     @ lit ''    .grid {\<newline>''
     @ lit ''      max-width: var(--max);\<newline>''
     @ lit ''      margin: 0 auto 32px;\<newline>''
     @ lit ''      padding: 0 16px;\<newline>''
     @ lit ''      display: grid;\<newline>''
     @ lit ''      grid-template-columns: repeat(3, 1fr);\<newline>''
     @ lit ''      gap: var(--gap);\<newline>''
     @ lit ''    }\<newline>''
     @ lit ''    @media (max-width: 900px) { .grid { grid-template-columns: repeat(2, 1fr); } }\<newline>''
     @ lit ''    @media (max-width: 520px) { .grid { grid-template-columns: 1fr; } }\<newline>''
     @ lit ''\<newline>''
     @ lit ''    figure {\<newline>''
     @ lit ''      margin: 0;\<newline>''
     @ lit ''      border-radius: 12px;\<newline>''
     @ lit ''      overflow: hidden;\<newline>''
     @ lit ''      background: #f4f4f4;\<newline>''
     @ lit ''      box-shadow: 0 1px 3px rgba(0,0,0,.08);\<newline>''
     @ lit ''    }\<newline>''
     @ lit ''\<newline>''
     @ lit ''    a.thumb {\<newline>''
     @ lit ''      display: block;\<newline>''
     @ lit ''      text-decoration: none;\<newline>''
     @ lit ''      color: inherit;\<newline>''
     @ lit ''    }\<newline>''
     @ lit ''\<newline>''
     @ lit ''    img {\<newline>''
     @ lit ''      width: 100%;\<newline>''
     @ lit ''      aspect-ratio: 4 / 3;\<newline>''
     @ lit ''      object-fit: cover;\<newline>''
     @ lit ''      display: block;\<newline>''
     @ lit ''      transform: scale(1);\<newline>''
     @ lit ''      transition: transform .12s ease-in-out;\<newline>''
     @ lit ''    }\<newline>''
     @ lit ''    a.thumb:hover img { transform: scale(1.02); }\<newline>''
     @ lit ''\<newline>''
     @ lit ''    figcaption {\<newline>''
     @ lit ''      padding: 8px 10px 10px;\<newline>''
     @ lit ''      font-size: 0.92rem;\<newline>''
     @ lit ''      line-height: 1.35;\<newline>''
     @ lit ''      background: #fff;\<newline>''
     @ lit ''      border-top: 1px solid rgba(0,0,0,.06);\<newline>''
     @ lit ''    }\<newline>''
     @ lit ''\<newline>''
     @ lit ''    .cap-title { font-weight: 600; display: block; }\<newline>''
     @ lit ''    .cap-note  { color: #444; font-size: 0.9em; display: block; margin-top: 2px; }\<newline>''
     @ lit ''\<newline>''
     @ lit ''    footer {\<newline>''
     @ lit ''      max-width: var(--max);\<newline>''
     @ lit ''      margin: 0 auto 40px;\<newline>''
     @ lit ''      padding: 0 16px;\<newline>''
     @ lit ''      color: #444;\<newline>''
     @ lit ''      font-size: 0.92rem;\<newline>''
     @ lit ''    }\<newline>''
     @ lit ''  </style>\<newline>''
     @ lit ''</head>\<newline>''
     @ lit ''\<newline>''
     @ lit ''<body>\<newline>''
     @ lit ''  <header>\<newline>''
     @ lit ''    <h1>'' @ [12450, 12523, 12496, 12512] @ lit ''</h1>\<newline>''
     @ lit ''    <p>'' @ [12469, 12512, 12493, 12452, 12523, 12434, 12463, 12522, 12483, 12463, 12377, 12427, 12392, 30011, 20687, 12501, 12449, 12452, 12523, 12434, 34920, 31034, 12375, 12414, 12377, 12290] @ lit ''</p>\<newline>''
     @ lit ''  </header>\<newline>''
     @ lit ''\<newline>''
     @ lit ''  <main class="grid">\<newline>''
     @ rstrip figures
     @ lit ''\<newline>''
     @ lit ''  </main>\<newline>''
     @ lit ''\<newline>''
     @ lit ''  <footer>\<newline>''
     @ lit ''    <hr>\<newline>''
     @ lit ''    '' @ [29983, 25104, 26085, 26178, 65306]
     @ generated_iso
     @ lit ''<br>\<newline>''
     @ lit ''    '' @ [26368, 32066, 26356, 26032, 65288, 12502, 12521, 12454, 12470, 35336, 31639, 65289, 65306] @ lit ''<span id="last-updated"></span>\<newline>''
     @ lit ''  </footer>\<newline>''
     @ lit ''\<newline>''
     @ lit ''  <script>\<newline>''
     @ lit ''    const lastModified = new Date(document.lastModified);\<newline>''
     @ lit ''    const y = lastModified.getFullYear();\<newline>''
     @ lit ''    const m = String(lastModified.getMonth() + 1).padStart(2, '0');\<newline>''
     @ lit ''    const d = String(lastModified.getDate()).padStart(2, '0');\<newline>''
     @ lit ''    document.getElementById("last-updated").textContent = `${y}'' @ [24180] @ lit ''${m}'' @ [26376] @ lit ''${d}'' @ [26085] @ lit ''`;\<newline>''
     @ lit ''  </script>\<newline>''
     @ lit ''</body>\<newline>''
     @ lit ''</html>\<newline>''\<close>

text \<open>
  \<open>main\<close> of generate\_album.py; \<open>now\<close> is the formatted time of generation. The
  report is the number of images it prints. \<open>write_text\<close> opens the page for writing,
  which empties it, and encodes the whole text in one piece: a page that cannot be
  encoded raises and leaves the file empty.
\<close>

definition main_album :: "(pystr \<Rightarrow> pystr) \<Rightarrow> pystr \<Rightarrow> filesystem \<Rightarrow> (error + nat) \<times> filesystem" where
  "main_album str_lower now fs =
     (if \<not> exists (images_dir fs) then (Inl (SystemExit (missing_message (images_path fs))), fs)
      else
        case load_captions (captions_csv fs) of
          Inl e \<Rightarrow> (Inl e, fs)
        | Inr captions \<Rightarrow>
            (case list_images_album str_lower (images_dir fs) of
               Inl e \<Rightarrow> (Inl e, fs)
             | Inr images \<Rightarrow>
                 (let html = build_html (concat (blocks_loop captions images [])) now
                  in if encodable html
                     then (Inr (length images), fs\<lparr>out_html := Some (Text html)\<rparr>)
                     else (Inl UnicodeEncodeError, fs\<lparr>out_html := Some (Text [])\<rparr>))))"

section \<open>The words of the specification\<close>

text \<open>
  The entity escape of one character, as the specification describes escaping: the
  four characters that are escaped everywhere, and the apostrophe in addition.
\<close>

definition html_entity :: "nat \<Rightarrow> pystr" where
  \<open>html_entity c =
     (if c = 38 then lit ''&amp;''
      else if c = 60 then lit ''&lt;''
      else if c = 62 then lit ''&gt;''
      else if c = 34 then lit ''&quot;''
      else [c])\<close>

definition attr_entity :: "nat \<Rightarrow> pystr" where
  \<open>attr_entity c = (if c = 39 then lit ''&#39;'' else html_entity c)\<close>

text \<open>
  A name with an image extension, as the specification describes the files the Image
  Lister keeps: something, a dot, and one of the five extensions in any letter case.
\<close>

definition image_extensions :: "pystr set" where
  "image_extensions = {lit ''jpg'', lit ''jpeg'', lit ''png'', lit ''webp'', lit ''gif''}"

definition has_image_extension :: "pystr \<Rightarrow> bool" where
  "has_image_extension name =
     (\<exists>stem ext. name = stem @ [46] @ ext \<and> stem \<noteq> [] \<and> lower ext \<in> image_extensions)"

text \<open>
  The row the Synchronizer owes an image: the title and note of the existing store when
  the filename is a key there, a blank row otherwise.
\<close>

definition reconciled_row :: "captions \<Rightarrow> pystr \<Rightarrow> csv_row" where
  "reconciled_row existing fn =
     (case existing fn of
        Some c \<Rightarrow> \<lparr>title = title c, note = note c, filename = fn\<rparr>
      | None \<Rightarrow> \<lparr>title = [], note = [], filename = fn\<rparr>)"

text \<open>
  The mapping a sequence of rows denotes, the last row for a filename winning; and what
  reading a written row back adds to a mapping: the fields trimmed, the row skipped when
  its trimmed filename is empty.
\<close>

definition rows_mapping :: "csv_row list \<Rightarrow> captions" where
  "rows_mapping rows = fold (\<lambda>r m. m(filename r \<mapsto> \<lparr>title = title r, note = note r\<rparr>)) rows Map.empty"

definition read_back_row :: "csv_row \<Rightarrow> captions \<Rightarrow> captions" where
  "read_back_row r m =
     (if strip (filename r) = [] then m
      else m(strip (filename r) \<mapsto> \<lparr>title = strip (title r), note = strip (note r)\<rparr>))"

text \<open>
  A caption mapping as the read operation builds it: no key is empty, and keys, titles
  and notes have no whitespace at either end.
\<close>

definition trimmed :: "captions \<Rightarrow> bool" where
  "trimmed m = (\<forall>k c. m k = Some c \<longrightarrow>
     k \<noteq> [] \<and> strip k = k \<and> strip (title c) = title c \<and> strip (note c) = note c)"

section \<open>Escaping\<close>

text \<open>
  Replacing a single character is a substitution character by character, so the chain of
  replacements in \<open>escape_html\<close> maps every character to its entity. The ampersand
  is replaced first: the ampersands of the entities written later are not replaced again.
\<close>

lemma replace_single:
  "replace [a] new s = concat (map (\<lambda>x. if x = a then new else [x]) s)"
  by (induction s) (auto simp: replace_def)

lemma escape_html_entities: "escape_html s = concat (map html_entity s)"
  by (induction s) (simp_all add: escape_html_def replace_single lit_def html_entity_def)

lemma escape_attr_entities: "escape_attr s = concat (map attr_entity s)"
  unfolding escape_attr_def escape_html_entities
  by (induction s) (simp_all add: replace_single lit_def html_entity_def attr_entity_def)


text \<open>
  Claim C1, as amended. In the figure block every interpolated value is escaped
  character by character. The filename in \<open>href\<close> and \<open>src\<close> and the stem in
  \<open>alt\<close>, which sit in attribute values, have all five characters replaced by their
  entities. The title and the note, which are the text of the \<open>cap-title\<close> and
  \<open>cap-note\<close> spans, have the ampersand, \<open><\<close>, \<open>>\<close> and the double quote
  replaced, and keep an apostrophe as it is.
\<close>

theorem figure_block_escaping:
  \<open>figure_block fn t n =
     lit ''    <figure>\<newline>      <a class="thumb" href="images/''
     @ concat (map attr_entity fn)
     @ lit ''">\<newline>        <img src="images/''
     @ concat (map attr_entity fn)
     @ lit ''" alt="''
     @ concat (map attr_entity (path_stem fn))
     @ lit ''" loading="lazy">\<newline>      </a>\<newline>      <figcaption>\<newline>        <span class="cap-title">''
     @ concat (map html_entity (if t = [] then caption_placeholder else t))
     @ lit ''</span>''
     @ (if n = [] then []
        else lit ''\<newline>        <span class="cap-note">'' @ concat (map html_entity n)
             @ lit ''</span>'')
     @ lit ''\<newline>      </figcaption>\<newline>    </figure>\<newline>''\<close>
  by (simp add: figure_block_def escape_html_entities escape_attr_entities)

theorem figure_block_escaping_witness:
  \<open>figure_block (lit ''it's.jpg'') (lit ''<b>&"'' @ lit [CHR 0x27]) (lit ''a'b'') =
     lit ''    <figure>\<newline>      <a class="thumb" href="images/it&#39;s.jpg">\<newline>        <img src="images/it&#39;s.jpg" alt="it&#39;s" loading="lazy">\<newline>      </a>\<newline>      <figcaption>\<newline>        <span class="cap-title">&lt;b&gt;&amp;&quot;'</span>\<newline>        <span class="cap-note">a'b</span>\<newline>      </figcaption>\<newline>    </figure>\<newline>''\<close>
  using figure_block_escaping [of \<open>lit ''it's.jpg''\<close> \<open>lit ''<b>&"'' @ lit [CHR 0x27]\<close> \<open>lit ''a'b''\<close>]
  by (simp add: lit_def html_entity_def attr_entity_def path_stem_def path_name_def name_stem_def rfind_def)

text \<open>
  Claim C1 as stated fails: for the title \<open><script>&"'\<close> the caption text of the
  rendered block holds the apostrophe itself, not its entity.
\<close>

theorem caption_apostrophe_counterexample:
  \<open>figure_block (lit ''a.jpg'') (lit ''<script>&"'' @ lit [CHR 0x27]) [] =
     lit ''    <figure>\<newline>      <a class="thumb" href="images/a.jpg">\<newline>        <img src="images/a.jpg" alt="a" loading="lazy">\<newline>      </a>\<newline>      <figcaption>\<newline>        <span class="cap-title">&lt;script&gt;&amp;&quot;'</span>\<newline>      </figcaption>\<newline>    </figure>\<newline>''\<close>
  by (simp add: figure_block_def escape_html_def escape_attr_def replace_def lit_def path_stem_def path_name_def name_stem_def rfind_def)

section \<open>The placeholder title and the note line\<close>

lemma escape_html_no_lt: "60 \<notin> set (escape_html s)"
  by (induction s) (simp_all add: escape_html_entities lit_def html_entity_def)

lemma escape_attr_no_lt: "60 \<notin> set (escape_attr s)"
  by (induction s) (simp_all add: escape_attr_entities lit_def html_entity_def attr_entity_def)

lemma sublist_skip: "a \<notin> set e \<Longrightarrow> sublist (a # p) (e @ rest) = sublist (a # p) rest"
  by (induction e) (simp_all add: sublist_Cons_right)

lemma figure_block_no_note:
  \<open>\<not> sublist (lit ''<span class="cap-note"'') (figure_block fn t [])\<close>
  by (simp add: figure_block_def lit_def sublist_Cons_right
      sublist_skip [OF escape_html_no_lt] sublist_skip [OF escape_attr_no_lt])

lemma escape_html_placeholder: "escape_html caption_placeholder = caption_placeholder"
  by (simp add: escape_html_entities caption_placeholder_def html_entity_def)

lemma figure_block_placeholder:
  \<open>sublist (lit ''<span class="cap-title">'' @ caption_placeholder @ lit ''</span>'')
     (figure_block fn [] n)\<close>
  unfolding sublist_def
  apply (rule exI [of _ \<open>lit ''    <figure>\<newline>      <a class="thumb" href="images/''
         @ escape_attr fn
         @ lit ''">\<newline>        <img src="images/''
         @ escape_attr fn
         @ lit ''" alt="''
         @ escape_attr (path_stem fn)
         @ lit ''" loading="lazy">\<newline>      </a>\<newline>      <figcaption>\<newline>        ''\<close>])
  apply (rule exI [of _ \<open>(if n \<noteq> []
             then lit ''\<newline>        <span class="cap-note">'' @ escape_html n
                  @ lit ''</span>''
             else [])
         @ lit ''\<newline>      </figcaption>\<newline>    </figure>\<newline>''\<close>])
  apply (simp add: figure_block_def escape_html_placeholder lit_def)
  done

lemma blocks_loop_map:
  "blocks_loop captions images blocks =
     blocks @ map (\<lambda>p. figure_block (fst p)
                          (case captions (fst p) of None \<Rightarrow> [] | Some c \<Rightarrow> title c)
                          (case captions (fst p) of None \<Rightarrow> [] | Some c \<Rightarrow> note c)) images"
  by (induction images arbitrary: blocks) (simp_all add: Let_def)


text \<open>
  Claim C7. The renderer's loop makes one figure block per image. The block of an image
  that has no entry in the caption store, or an entry with an empty title, holds the
  title span with the placeholder text; and the block of an image with no entry or with
  an empty note holds no \<open>cap-note\<close> span at all.
\<close>

theorem placeholder_and_absent_note:
  assumes "i < length images"
  shows \<open>length (blocks_loop captions images []) = length images
     \<and> ((case captions (fst (images ! i)) of None \<Rightarrow> True | Some c \<Rightarrow> title c = []) \<longrightarrow>
          sublist (lit ''<span class="cap-title">'' @ caption_placeholder @ lit ''</span>'')
            (blocks_loop captions images [] ! i))
     \<and> ((case captions (fst (images ! i)) of None \<Rightarrow> True | Some c \<Rightarrow> note c = []) \<longrightarrow>
          \<not> sublist (lit ''<span class="cap-note"'') (blocks_loop captions images [] ! i))\<close>
  using assms
  by (auto simp: blocks_loop_map figure_block_placeholder figure_block_no_note
      split: option.splits)

theorem placeholder_and_absent_note_witness:
  \<open>sublist (lit ''<span class="cap-title">'' @ caption_placeholder @ lit ''</span>'')
      (blocks_loop Map.empty [(lit ''200307b.png'', RegularFile)] [] ! 0)
   \<and> \<not> sublist (lit ''<span class="cap-note"'')
      (blocks_loop Map.empty [(lit ''200307b.png'', RegularFile)] [] ! 0)\<close>
  using placeholder_and_absent_note [of 0 \<open>[(lit ''200307b.png'', RegularFile)]\<close> Map.empty]
  by simp

section \<open>The Image Lister\<close>

text \<open>
  The suffix of a name is decided by its last dot. A name passes the lister's test on
  its lower-cased suffix exactly when it has an image extension in the sense of the
  specification.
\<close>

lemma rfind_last: "c \<notin> set e \<Longrightarrow> rfind c (s @ c # e) = int (length s)"
proof -
  assume "c \<notin> set e"
  then have "takeWhile (\<lambda>x. x \<noteq> c) (rev e @ c # rev s) = rev e"
    by (subst takeWhile_append2) auto
  then show ?thesis by (simp add: rfind_def)
qed

lemma rfind_absent: "c \<notin> set s \<Longrightarrow> rfind c s = - 1"
  by (simp add: rfind_def)

lemma name_suffix_split:
  "46 \<notin> set e \<Longrightarrow> name_suffix (s @ 46 # e) = (if s \<noteq> [] \<and> e \<noteq> [] then 46 # e else [])"
  by (auto simp: name_suffix_def rfind_last)

lemma name_suffix_no_dot: "46 \<notin> set n \<Longrightarrow> name_suffix n = []"
  by (simp add: name_suffix_def rfind_absent)

lemma name_stem_split:
  "46 \<notin> set e \<Longrightarrow> name_stem (s @ 46 # e) = (if s \<noteq> [] \<and> e \<noteq> [] then s else s @ 46 # e)"
  by (auto simp: name_stem_def rfind_last)

lemma lower_cp_dot: "lower_cp c = 46 \<longleftrightarrow> c = 46"
  by (auto simp: lower_cp_def)

lemma lower_dot_free: "46 \<in> set (lower e) \<longleftrightarrow> 46 \<in> set e"
  by (auto simp: lower_def lower_cp_dot image_iff)

lemma image_extensions_dot_free: "x \<in> image_extensions \<Longrightarrow> 46 \<notin> set x \<and> x \<noteq> []"
  by (auto simp: image_extensions_def lit_def)

lemma IMAGE_EXTS_dotted: "x \<in> IMAGE_EXTS \<longleftrightarrow> (\<exists>e \<in> image_extensions. x = 46 # e)"
  by (auto simp: image_extensions_def IMAGE_EXTS_def lit_def)

lemma lower_Cons_dot: "lower (46 # e) = 46 # lower e"
  by (simp add: lower_def lower_cp_def)

lemma lower_eq_Nil: "lower e = [] \<longleftrightarrow> e = []"
  by (simp add: lower_def)

lemma listed_iff: "lower (name_suffix n) \<in> IMAGE_EXTS \<longleftrightarrow> has_image_extension n"
proof
  assume l: "lower (name_suffix n) \<in> IMAGE_EXTS"
  then have ne: "name_suffix n \<noteq> []"
    by (auto simp: IMAGE_EXTS_dotted lower_def)
  then have "46 \<in> set n"
    using name_suffix_no_dot by blast
  then obtain s e where n: "n = s @ 46 # e" and e: "46 \<notin> set e"
    using split_list_last by fastforce
  with ne have se: "s \<noteq> []" "e \<noteq> []" and suf: "name_suffix n = 46 # e"
    by (auto simp: name_suffix_split split: if_splits)
  from l suf have "lower e \<in> image_extensions"
    by (auto simp: IMAGE_EXTS_dotted lower_Cons_dot)
  with n se show "has_image_extension n"
    unfolding has_image_extension_def by auto
next
  assume "has_image_extension n"
  then obtain s e where n: "n = s @ [46] @ e" and s: "s \<noteq> []"
      and le: "lower e \<in> image_extensions"
    unfolding has_image_extension_def by blast
  from le have e: "46 \<notin> set e" "e \<noteq> []"
    using image_extensions_dot_free [of "lower e"] by (auto simp: lower_dot_free lower_eq_Nil)
  with n s have "name_suffix n = 46 # e"
    by (simp add: name_suffix_split)
  with le show "lower (name_suffix n) \<in> IMAGE_EXTS"
    by (auto simp: IMAGE_EXTS_dotted lower_Cons_dot)
qed

lemma list_images_Directory:
  "list_images str_lower (Directory es) =
     Inr (sort_key str_lower
            (map fst (filter (\<lambda>p. snd p = RegularFile \<and> has_image_extension (fst p)) es)))"
  by (simp add: list_images_def iterdir_def is_file_def listed_iff)

lemma list_images_album_Directory:
  "list_images_album str_lower (Directory es) =
     Inr (sort_key (\<lambda>p. str_lower (fst p))
            (filter (\<lambda>p. snd p = RegularFile \<and> has_image_extension (fst p)) es))"
  by (simp add: list_images_album_def iterdir_def is_file_def listed_iff)

lemma sort_key_map: "sort_key f (map g xs) = map g (sort_key (\<lambda>x. f (g x)) xs)"
proof (induction xs)
  case Nil
  show ?case by simp
next
  case (Cons x xs)
  have ins: "insort_key f (g x) (map g ys) = map g (insort_key (\<lambda>x. f (g x)) x ys)" for ys
    by (induction ys) simp_all
  show ?case
    by (simp add: Cons.IH ins)
qed

lemma list_images_album_names:
  "list_images str_lower (Directory es) = map_sum id (map fst) (list_images_album str_lower (Directory es))"
  by (simp add: list_images_Directory list_images_album_Directory sort_key_map)


text \<open>
  Claim C6. The Image Lister returns the names (generate\_album.py: the paths) of exactly
  the entries of the directory that are regular files and have an image extension, each
  as often as the directory holds it. \<open>a.JPG\<close> and \<open>a.Jpg\<close> have an image extension,
  \<open>a.txt\<close> has none, and an entry that is no regular file is never returned.
\<close>

theorem image_lister_exact:
  \<open>(\<exists>names. list_images str_lower (Directory es) = Inr names
       \<and> mset names = mset (map fst (filter (\<lambda>p. snd p = RegularFile \<and> has_image_extension (fst p)) es)))
   \<and> (\<exists>paths. list_images_album str_lower (Directory es) = Inr paths
       \<and> mset paths = mset (filter (\<lambda>p. snd p = RegularFile \<and> has_image_extension (fst p)) es))
   \<and> has_image_extension (lit ''a.JPG'') \<and> has_image_extension (lit ''a.Jpg'')
   \<and> \<not> has_image_extension (lit ''a.txt'')\<close>
proof -
  have "has_image_extension (lit ''a.JPG'')" "has_image_extension (lit ''a.Jpg'')"
    "\<not> has_image_extension (lit ''a.txt'')"
    unfolding listed_iff [symmetric]
    by (simp_all add: lit_def name_suffix_def rfind_def lower_def lower_cp_def IMAGE_EXTS_def)
  then show ?thesis
    by (simp add: list_images_Directory list_images_album_Directory)
qed

theorem image_lister_exact_witness:
  \<open>list_images lower (Directory [(lit ''b.jpg'', Subdirectory), (lit ''a.txt'', RegularFile),
      (lit ''a.Jpg'', RegularFile), (lit ''.jpg'', RegularFile)]) = Inr [lit ''a.Jpg'']\<close>
  using image_lister_exact [of lower \<open>[(lit ''b.jpg'', Subdirectory), (lit ''a.txt'', RegularFile),
      (lit ''a.Jpg'', RegularFile), (lit ''.jpg'', RegularFile)]\<close>]
  by (simp add: list_images_def iterdir_def is_file_def lit_def name_suffix_def rfind_def
      lower_def lower_cp_def IMAGE_EXTS_def)

text \<open>
  Claim C10. A file whose whole name is a dot and an allowed extension has the empty
  suffix, and neither lister returns it, whatever else the directory holds.
\<close>

theorem dotfile_excluded:
  assumes "lower e \<in> image_extensions"
  shows "name_suffix (46 # e) = []
    \<and> (\<forall>es names. list_images str_lower (Directory es) = Inr names \<longrightarrow> 46 # e \<notin> set names)
    \<and> (\<forall>es paths. list_images_album str_lower (Directory es) = Inr paths \<longrightarrow> 46 # e \<notin> fst ` set paths)"
proof -
  from assms have e: "46 \<notin> set e"
    using image_extensions_dot_free [of "lower e"] by (simp add: lower_dot_free)
  then have s: "name_suffix (46 # e) = []"
    using name_suffix_split [of e "[]"] by simp
  then have "\<not> has_image_extension (46 # e)"
    unfolding listed_iff [symmetric] by (simp add: IMAGE_EXTS_def lower_def lit_def)
  then show ?thesis
    using s by (auto simp: list_images_Directory list_images_album_Directory)
qed

theorem dotfile_excluded_witness:
  \<open>lower (lit ''PNG'') \<in> image_extensions
   \<and> list_images lower (Directory [(lit ''.PNG'', RegularFile), (lit ''x.PNG'', RegularFile)])
       = Inr [lit ''x.PNG'']
   \<and> lit ''.PNG'' \<notin> set [lit ''x.PNG'']\<close>
proof -
  have h: \<open>lower (lit ''PNG'') \<in> image_extensions\<close>
    by (simp add: lit_def lower_def lower_cp_def image_extensions_def)
  show ?thesis
    using h dotfile_excluded [where str_lower = lower, OF h]
    by (simp add: list_images_def iterdir_def is_file_def lit_def name_suffix_def rfind_def
      lower_def lower_cp_def IMAGE_EXTS_def)
qed

subsection \<open>Ordering\<close>

lemma sort_key_determined:
  assumes "set xs = set ys" "distinct xs" "distinct ys" "inj_on f (set xs)"
  shows "sort_key f xs = sort_key f ys"
proof -
  let ?a = "sort_key f xs" and ?b = "sort_key f ys"
  have s: "set ?a = set xs" "set ?b = set xs"
    using assms(1) by simp_all
  have d: "distinct (map f ?a)" "distinct (map f ?b)"
    using assms s by (simp_all add: distinct_map)
  have so: "sorted (map f ?a)" "sorted (map f ?b)"
    by simp_all
  have e: "set (map f ?a) = set (map f ?b)"
    using s by simp
  have "map f ?a = map f ?b"
    by (rule sorted_distinct_set_unique [OF so(1) d(1) so(2) d(2) e])
  moreover have "inj_on f (set ?a \<union> set ?b)"
    using assms(4) s by simp
  ultimately show ?thesis
    by (simp add: inj_on_map_eq_map)
qed

lemma eligible_names_distinct:
  "distinct (map fst es) \<Longrightarrow> distinct (map fst (filter P es))"
  by (simp add: distinct_map_filter)

lemma listing_determined:
  assumes h: "set es' = set es" "distinct (map fst es)" "distinct (map fst es')"
    "inj_on str_lower (fst ` {p \<in> set es. P p})"
  shows "sort_key str_lower (map fst (filter P es')) = sort_key str_lower (map fst (filter P es))"
    and "sort_key (\<lambda>p. str_lower (fst p)) (filter P es') = sort_key (\<lambda>p. str_lower (fst p)) (filter P es)"
proof -
  have inj: "inj_on str_lower (set (map fst (filter P es')))"
    using h(1,4) by simp
  have se: "set (map fst (filter P es')) = set (map fst (filter P es))"
    using h(1) by simp
  show "sort_key str_lower (map fst (filter P es')) = sort_key str_lower (map fst (filter P es))"
    by (rule sort_key_determined [OF se eligible_names_distinct [OF h(3)]
          eligible_names_distinct [OF h(2)] inj])
  have d: "distinct (filter P es')" "distinct (filter P es)"
    using h(2,3) by (simp_all add: distinct_map)
  have "inj_on fst (set es')"
    using h(3) by (simp add: distinct_map)
  then have "inj_on fst (set (filter P es'))"
    by (rule inj_on_subset) auto
  moreover have "inj_on str_lower (fst ` set (filter P es'))"
    using inj by simp
  ultimately have i2: "inj_on (\<lambda>p. str_lower (fst p)) (set (filter P es'))"
    using comp_inj_on [of fst "set (filter P es')" str_lower] by (simp add: comp_def)
  have se2: "set (filter P es') = set (filter P es)"
    using h(1) by simp
  show "sort_key (\<lambda>p. str_lower (fst p)) (filter P es') = sort_key (\<lambda>p. str_lower (fst p)) (filter P es)"
    by (rule sort_key_determined [OF se2 d i2])
qed

text \<open>
  Claim C5, as amended. Whatever the lower-casing \<open>str_lower\<close> of the names is, the Image
  Lister's output is sorted ascending by the lower-cased name, compared code point by
  code point, and both scripts list the same names in the same order. Names with the
  same lower-cased form appear in the order in which the directory enumerates them. When
  no two listed names have the same lower-cased form, every enumeration of the same
  directory gives the same sequence.
\<close>

theorem lister_sorted:
  \<open>\<exists>names paths.
     list_images str_lower (Directory es) = Inr names \<and> list_images_album str_lower (Directory es) = Inr paths
     \<and> names = map fst paths
     \<and> sorted (map str_lower names)
     \<and> (\<forall>k. filter (\<lambda>n. str_lower n = k) names
             = filter (\<lambda>n. str_lower n = k)
                 (map fst (filter (\<lambda>p. snd p = RegularFile \<and> has_image_extension (fst p)) es)))
     \<and> (\<forall>es'. set es' = set es \<and> distinct (map fst es) \<and> distinct (map fst es')
               \<and> inj_on str_lower (set names)
           \<longrightarrow> list_images str_lower (Directory es') = Inr names
               \<and> list_images_album str_lower (Directory es') = Inr paths)\<close>
proof -
  define P where "P = (\<lambda>p :: dir_entry. snd p = RegularFile \<and> has_image_extension (fst p))"
  define names where "names = sort_key str_lower (map fst (filter P es))"
  define paths where "paths = sort_key (\<lambda>p. str_lower (fst p)) (filter P es)"
  have l1: "list_images str_lower (Directory es) = Inr names"
    unfolding names_def P_def by (rule list_images_Directory)
  have l2: "list_images_album str_lower (Directory es) = Inr paths"
    unfolding paths_def P_def by (rule list_images_album_Directory)
  have n: "names = map fst paths"
    unfolding names_def paths_def by (rule sort_key_map)
  have so: "sorted (map str_lower names)"
    unfolding names_def by (rule sorted_sort_key)
  have st: "filter (\<lambda>n. str_lower n = k) names = filter (\<lambda>n. str_lower n = k) (map fst (filter P es))" for k
    unfolding names_def by (rule sort_key_stable)
  have sn: "set names = fst ` {p \<in> set es. P p}"
    unfolding names_def by simp
  have det: "list_images str_lower (Directory es') = Inr names \<and> list_images_album str_lower (Directory es') = Inr paths"
    if h: "set es' = set es \<and> distinct (map fst es) \<and> distinct (map fst es')
      \<and> inj_on str_lower (set names)" for es'
  proof -
    from h have h1: "set es' = set es" and h2: "distinct (map fst es)"
      and h3: "distinct (map fst es')" and h4: "inj_on str_lower (fst ` {p \<in> set es. P p})"
      by (simp_all only: sn)
    have "list_images str_lower (Directory es') = Inr (sort_key str_lower (map fst (filter P es')))"
      unfolding P_def by (rule list_images_Directory)
    moreover have "list_images_album str_lower (Directory es') = Inr (sort_key (\<lambda>p. str_lower (fst p)) (filter P es'))"
      unfolding P_def by (rule list_images_album_Directory)
    ultimately show ?thesis
      unfolding names_def paths_def
      by (simp only: listing_determined [OF h1 h2 h3 h4])
  qed
  have "list_images str_lower (Directory es) = Inr names \<and> list_images_album str_lower (Directory es) = Inr paths
     \<and> names = map fst paths \<and> sorted (map str_lower names)
     \<and> (\<forall>k. filter (\<lambda>n. str_lower n = k) names = filter (\<lambda>n. str_lower n = k) (map fst (filter P es)))
     \<and> (\<forall>es'. set es' = set es \<and> distinct (map fst es) \<and> distinct (map fst es')
               \<and> inj_on str_lower (set names)
           \<longrightarrow> list_images str_lower (Directory es') = Inr names
               \<and> list_images_album str_lower (Directory es') = Inr paths)"
    using l1 l2 n so st det by blast
  then show ?thesis
    unfolding P_def by blast
qed

theorem lister_sorted_witness:
  \<open>list_images lower (Directory [(lit ''b.png'', RegularFile), (lit ''A.jpg'', RegularFile)])
     = Inr [lit ''A.jpg'', lit ''b.png'']
   \<and> sorted (map lower [lit ''A.jpg'', lit ''b.png''])
   \<and> list_images lower (Directory [(lit ''A.jpg'', RegularFile), (lit ''b.png'', RegularFile)])
     = Inr [lit ''A.jpg'', lit ''b.png'']\<close>
proof -
  let ?es = \<open>[(lit ''b.png'', RegularFile), (lit ''A.jpg'', RegularFile)]\<close>
  let ?es' = \<open>[(lit ''A.jpg'', RegularFile), (lit ''b.png'', RegularFile)]\<close>
  have e: \<open>list_images lower (Directory ?es) = Inr [lit ''A.jpg'', lit ''b.png'']\<close>
    by (simp add: list_images_def iterdir_def is_file_def lit_def name_suffix_def rfind_def
      lower_def lower_cp_def IMAGE_EXTS_def)
  obtain names paths where n: "list_images lower (Directory ?es) = Inr names"
    and s: "sorted (map lower names)"
    and d: "\<forall>es'. set es' = set ?es \<and> distinct (map fst ?es) \<and> distinct (map fst es')
               \<and> inj_on lower (set names)
           \<longrightarrow> list_images lower (Directory es') = Inr names
               \<and> list_images_album lower (Directory es') = Inr paths"
    using lister_sorted [of lower ?es] by blast
  from n e have names: \<open>names = [lit ''A.jpg'', lit ''b.png'']\<close>
    by simp
  have h: "set ?es' = set ?es \<and> distinct (map fst ?es) \<and> distinct (map fst ?es')
      \<and> inj_on lower (set names)"
    unfolding names by (auto simp: lit_def lower_def lower_cp_def)
  from d h have "list_images lower (Directory ?es') = Inr names"
    by blast
  with e s show ?thesis
    unfolding names by simp
qed

text \<open>
  Claim C5 as stated fails for two names that differ only in letter case: the same two
  files, enumerated in the two possible orders, are listed in two different orders. The
  names are ASCII, where \<open>lower\<close> is \<open>str.lower\<close>.
\<close>

theorem case_only_names_counterexample:
  \<open>set [(lit ''a.JPG'', RegularFile), (lit ''a.jpg'', RegularFile)]
     = set [(lit ''a.jpg'', RegularFile), (lit ''a.JPG'', RegularFile)]
   \<and> list_images lower (Directory [(lit ''a.JPG'', RegularFile), (lit ''a.jpg'', RegularFile)])
     = Inr [lit ''a.JPG'', lit ''a.jpg'']
   \<and> list_images lower (Directory [(lit ''a.jpg'', RegularFile), (lit ''a.JPG'', RegularFile)])
     = Inr [lit ''a.jpg'', lit ''a.JPG'']
   \<and> list_images_album lower (Directory [(lit ''a.JPG'', RegularFile), (lit ''a.jpg'', RegularFile)])
     = Inr [(lit ''a.JPG'', RegularFile), (lit ''a.jpg'', RegularFile)]
   \<and> list_images_album lower (Directory [(lit ''a.jpg'', RegularFile), (lit ''a.JPG'', RegularFile)])
     = Inr [(lit ''a.jpg'', RegularFile), (lit ''a.JPG'', RegularFile)]\<close>
proof -
  have \<open>set [(lit ''a.JPG'', RegularFile), (lit ''a.jpg'', RegularFile)]
     = set [(lit ''a.jpg'', RegularFile), (lit ''a.JPG'', RegularFile)]\<close>
    by (simp add: insert_commute)
  then show ?thesis
    by (simp add: list_images_def list_images_album_def iterdir_def is_file_def lit_def
      name_suffix_def rfind_def lower_def lower_cp_def IMAGE_EXTS_def)
qed

section \<open>The csv reader on the text as a whole\<close>

text \<open>
  Reading line by line is the same as feeding the reader the characters of the text one
  by one and ending a line after each line end.
\<close>

lemma process_chars_append:
  "process_chars r (a @ b) =
     (case process_chars r a of Inl e \<Rightarrow> Inl e | Inr r' \<Rightarrow> process_chars r' b)"
  by (induction a arbitrary: r) (simp_all split: sum.splits)

lemma read_records_reset_Nil: "read_records parse_reset [] = Inr []"
  by (simp add: parse_reset_def)

lemma read_records_line:
  "process_chars r0 line = Inr r1 \<Longrightarrow>
   read_records r0 (line # ls) = line_end r1 (\<lambda>r. read_records r ls)"
  by (simp add: process_line_def line_end_def split: sum.splits)

lemma feed_newline:
  "parse_process_char r (Some c) = Inr r1 \<Longrightarrow>
   c = 10 \<or> (c = 13 \<and> (case t of [] \<Rightarrow> True | d # _ \<Rightarrow> d \<noteq> 10)) \<Longrightarrow>
   feed r b (c # t) = line_end r1 (\<lambda>r. feed r False t)"
  by (simp add: line_end_def split: sum.splits)

lemma feed_continue:
  "parse_process_char r (Some c) = Inr r1 \<Longrightarrow>
   \<not> (c = 10 \<or> (c = 13 \<and> (case t of [] \<Rightarrow> True | d # _ \<Rightarrow> d \<noteq> 10))) \<Longrightarrow>
   feed r b (c # t) = feed r1 True t"
  by (cases t) auto

lemma feed_error:
  "parse_process_char r (Some c) = Inl e \<Longrightarrow> feed r b (c # t) = Inl e"
  by simp

lemma process_chars_error_prefix:
  "process_chars r (a @ b) = Inl e" if "process_chars r a = Inl e"
  using that by (simp add: process_chars_append)

lemma file_lines_first:
  "cur \<noteq> [] \<Longrightarrow> \<exists>more ls. file_lines cur inp = (cur @ more) # ls"
proof (induction cur inp rule: file_lines.induct)
  case (1 cur)
  then show ?case by simp
next
  case (2 cur c)
  then show ?case by simp
next
  case (3 cur c d ds)
  consider (lf) "c = 10" | (crlf) "c = 13" "d = 10" | (cr) "c = 13" "d \<noteq> 10"
    | (other) "c \<noteq> 10" "c \<noteq> 13"
    by blast
  then show ?case
  proof cases
    case other
    then obtain more ls where "file_lines (cur @ [c]) (d # ds) = ((cur @ [c]) @ more) # ls"
      using "3.IH"(4) by blast
    then have "file_lines cur (c # d # ds) = (cur @ (c # more)) # ls"
      using other by simp
    then show ?thesis by blast
  qed simp_all
qed

lemma file_lines_Cons_first:
  "\<exists>more ls. file_lines cur (c # t) = (cur @ c # more) # ls"
proof (cases t)
  case Nil
  then show ?thesis by simp
next
  case (Cons d ds)
  consider (lf) "c = 10" | (crlf) "c = 13" "d = 10" | (cr) "c = 13" "d \<noteq> 10"
    | (other) "c \<noteq> 10" "c \<noteq> 13"
    by blast
  then show ?thesis
  proof cases
    case other
    obtain more ls where "file_lines (cur @ [c]) (d # ds) = ((cur @ [c]) @ more) # ls"
      using file_lines_first [of "cur @ [c]" "d # ds"] by blast
    then show ?thesis
      using other Cons by simp
  qed (simp_all add: Cons)
qed

lemma read_records_error:
  assumes "process_chars r0 (cur @ [c]) = Inl e"
  shows "read_records r0 (file_lines cur (c # t)) = Inl e"
proof -
  obtain more ls where "file_lines cur (c # t) = (cur @ c # more) # ls"
    using file_lines_Cons_first by blast
  moreover have "process_line r0 ((cur @ [c]) @ more) = Inl e"
    using assms unfolding process_line_def process_chars_append [of r0 "cur @ [c]"] by simp
  ultimately show ?thesis by simp
qed

lemma feed_fusion:
  "process_chars r0 cur = Inr rc \<Longrightarrow>
   read_records r0 (file_lines cur inp) = feed rc (cur \<noteq> []) inp"
proof (induction cur inp arbitrary: r0 rc rule: file_lines.induct)
  case (1 cur)
  show ?case
  proof (cases "cur = []")
    case True
    with 1 show ?thesis by simp
  next
    case False
    with 1 show ?thesis
      by (simp add: parse_reset_def process_line_def split: sum.splits)
  qed
next
  case (2 cur c)
  then show ?case
    by (simp add: parse_reset_def process_line_def process_chars_append split: sum.splits)
next
  case (3 cur c d ds)
  show ?case
  proof (cases "parse_process_char rc (Some c)")
    case (Inl e)
    have "process_chars r0 (cur @ [c]) = Inl e"
      using "3.prems" Inl by (simp add: process_chars_append)
    then have "read_records r0 (file_lines cur (c # d # ds)) = Inl e"
      by (rule read_records_error)
    then show ?thesis
      by (simp only: feed_error [OF Inl])
  next
    case (Inr r1)
    then have pc: "process_chars r0 (cur @ [c]) = Inr r1"
      using "3.prems" by (simp add: process_chars_append)
    have reset: "process_chars r [] = Inr r" for r
      by simp
    consider (lf) "c = 10" | (crlf) "c = 13" "d = 10" | (cr) "c = 13" "d \<noteq> 10"
      | (other) "c \<noteq> 10" "c \<noteq> 13"
      by blast
    then show ?thesis
    proof cases
      case lf
      have ih: "read_records r (file_lines [] (d # ds)) = feed r False (d # ds)" for r
        using "3.IH"(1) [OF lf reset] by (simp del: feed.simps)
      have "read_records r0 (file_lines cur (c # d # ds))
          = line_end r1 (\<lambda>r. read_records r (file_lines [] (d # ds)))"
        using lf pc by (simp add: read_records_line del: read_records.simps)
      also have "\<dots> = feed rc (cur \<noteq> []) (c # d # ds)"
        unfolding ih using lf by (subst feed_newline [OF Inr]) simp_all
      finally show ?thesis .
    next
      case crlf
      show ?thesis
      proof (cases "parse_process_char r1 (Some d)")
        case (Inl e)
        have "process_chars r0 (cur @ [c, d]) = Inl e"
          using "3.prems" Inr Inl by (simp add: process_chars_append)
        then have "read_records r0 (file_lines cur (c # d # ds)) = Inl e"
          using crlf by (simp add: process_line_def)
        moreover have "feed rc (cur \<noteq> []) (c # d # ds) = Inl e"
          using crlf Inl by (subst feed_continue [OF Inr]) simp_all
        ultimately show ?thesis by simp
      next
        case r2: (Inr r2)
        have pc2: "process_chars r0 (cur @ [c, d]) = Inr r2"
          using "3.prems" Inr r2 by (simp add: process_chars_append)
        have ih: "read_records r (file_lines [] ds) = feed r False ds" for r
          using "3.IH"(2) [OF _ crlf reset] crlf by (simp del: feed.simps)
        have "read_records r0 (file_lines cur (c # d # ds))
            = line_end r2 (\<lambda>r. read_records r (file_lines [] ds))"
          using crlf pc2 by (simp add: read_records_line del: read_records.simps)
        also have "\<dots> = feed r1 True (d # ds)"
          unfolding ih using crlf by (subst feed_newline [OF r2]) simp_all
        also have "\<dots> = feed rc (cur \<noteq> []) (c # d # ds)"
          using crlf by (subst feed_continue [OF Inr]) simp_all
        finally show ?thesis .
      qed
    next
      case cr
      have ih: "read_records r (file_lines [] (d # ds)) = feed r False (d # ds)" for r
        using "3.IH"(3) [OF _ cr reset] cr by (simp del: feed.simps)
      have "read_records r0 (file_lines cur (c # d # ds))
          = line_end r1 (\<lambda>r. read_records r (file_lines [] (d # ds)))"
        using cr pc by (simp add: read_records_line del: read_records.simps)
      also have "\<dots> = feed rc (cur \<noteq> []) (c # d # ds)"
        unfolding ih using cr by (subst feed_newline [OF Inr]) simp_all
      finally show ?thesis .
    next
      case other
      have "read_records r0 (file_lines cur (c # d # ds)) = feed r1 True (d # ds)"
        using "3.IH"(4) [OF other pc] other by (simp del: feed.simps)
      also have "\<dots> = feed rc (cur \<noteq> []) (c # d # ds)"
        using other by (subst feed_continue [OF Inr]) simp_all
      finally show ?thesis .
    qed
  qed
qed

lemma csv_reader_feed: "csv_reader inp = feed parse_reset False inp"
  using feed_fusion [of parse_reset "[]" parse_reset inp] by (simp add: csv_reader_def)


section \<open>Reading back what the writer wrote\<close>

text \<open>
  The reader returns the fields of a written record as they were, unless one of them is
  longer than the field size limit: then it raises.
\<close>

lemmas step_defs = parse_process_char_def start_field_def save_at_line_end_def
  parse_save_field_def parse_add_char_def

lemma feed_flag: "t \<noteq> [] \<Longrightarrow> feed r b t = feed r b' t"
  by (cases t) simp_all

lemma feed_quoted_body:
  "t \<noteq> [] \<Longrightarrow> length a \<le> field_limit \<Longrightarrow>
   feed \<lparr>state = IN_QUOTED_FIELD, field = a, field_list = fl\<rparr> b
      (concat (map (\<lambda>c. if c = 34 then [34, 34] else [c]) s) @ t)
   = (if length (a @ s) \<le> field_limit
      then feed \<lparr>state = IN_QUOTED_FIELD, field = a @ s, field_list = fl\<rparr> b' t
      else Inl FieldLargerThanLimit)"
proof (induction s arbitrary: a b)
  case Nil
  then show ?case using feed_flag by simp
next
  case (Cons c s)
  show ?case
  proof (cases "length a = field_limit")
    case True
    then show ?thesis by (simp add: step_defs)
  next
    case False
    with Cons.prems have "length (a @ [c]) \<le> field_limit"
      by simp
    then show ?thesis
      using False Cons.prems(2) by (simp add: step_defs Cons.IH [OF Cons.prems(1)])
  qed
qed

lemma feed_plain:
  "t \<noteq> [] \<Longrightarrow> \<not> needs_quotes s \<Longrightarrow> length a \<le> field_limit \<Longrightarrow>
   feed \<lparr>state = IN_FIELD, field = a, field_list = fl\<rparr> b (s @ t)
   = (if length (a @ s) \<le> field_limit
      then feed \<lparr>state = IN_FIELD, field = a @ s, field_list = fl\<rparr> b' t
      else Inl FieldLargerThanLimit)"
proof (induction s arbitrary: a b)
  case Nil
  then show ?case using feed_flag by simp
next
  case (Cons c s)
  from Cons.prems have c: "c \<noteq> 44" "c \<noteq> 34" "c \<noteq> 13" "c \<noteq> 10" and s: "\<not> needs_quotes s"
    by (simp_all add: needs_quotes_def)
  show ?case
  proof (cases "length a = field_limit")
    case True
    then show ?thesis using c by (simp add: step_defs)
  next
    case False
    with Cons.prems have "length (a @ [c]) \<le> field_limit"
      by simp
    then show ?thesis
      using False Cons.prems(3) c by (simp add: step_defs Cons.IH [OF Cons.prems(1) s])
  qed
qed

lemma field_limit_pos: "0 < field_limit"
  by (simp add: field_limit_def)

lemma feed_field_comma:
  assumes "st = START_RECORD \<or> st = START_FIELD"
  shows "feed \<lparr>state = st, field = [], field_list = fl\<rparr> b (write_field f @ 44 # t)
    = (if length f \<le> field_limit
       then feed \<lparr>state = START_FIELD, field = [], field_list = fl @ [f]\<rparr> True t
       else Inl FieldLargerThanLimit)"
proof (cases "needs_quotes f")
  case True
  have "feed \<lparr>state = st, field = [], field_list = fl\<rparr> b (write_field f @ 44 # t)
      = feed \<lparr>state = IN_QUOTED_FIELD, field = [], field_list = fl\<rparr> True
          (concat (map (\<lambda>c. if c = 34 then [34, 34] else [c]) f) @ 34 # 44 # t)"
    using assms True by (auto simp: write_field_def step_defs)
  also have "\<dots> = (if length f \<le> field_limit
      then feed \<lparr>state = IN_QUOTED_FIELD, field = f, field_list = fl\<rparr> True (34 # 44 # t)
      else Inl FieldLargerThanLimit)"
    using feed_quoted_body [of "34 # 44 # t" "[]" fl True f True] by simp
  also have "\<dots> = (if length f \<le> field_limit
      then feed \<lparr>state = START_FIELD, field = [], field_list = fl @ [f]\<rparr> True t
      else Inl FieldLargerThanLimit)"
    by (simp add: step_defs)
  finally show ?thesis .
next
  case False
  show ?thesis
  proof (cases f)
    case Nil
    then show ?thesis
      using assms by (auto simp: write_field_def needs_quotes_def step_defs)
  next
    case (Cons c s)
    from False Cons have c: "c \<noteq> 44" "c \<noteq> 34" "c \<noteq> 13" "c \<noteq> 10" and s: "\<not> needs_quotes s"
      by (simp_all add: needs_quotes_def)
    have "feed \<lparr>state = st, field = [], field_list = fl\<rparr> b (write_field f @ 44 # t)
        = feed \<lparr>state = IN_FIELD, field = [c], field_list = fl\<rparr> True (s @ 44 # t)"
      using assms False Cons c field_limit_pos by (auto simp: write_field_def step_defs)
    also have "\<dots> = (if length f \<le> field_limit
        then feed \<lparr>state = IN_FIELD, field = f, field_list = fl\<rparr> True (44 # t)
        else Inl FieldLargerThanLimit)"
      using feed_plain [of "44 # t" s "[c]" fl True True] s Cons field_limit_pos by simp
    also have "\<dots> = (if length f \<le> field_limit
        then feed \<lparr>state = START_FIELD, field = [], field_list = fl @ [f]\<rparr> True t
        else Inl FieldLargerThanLimit)"
      by (simp add: step_defs)
    finally show ?thesis .
  qed
qed

lemma feed_field_crlf:
  "feed \<lparr>state = START_FIELD, field = [], field_list = fl\<rparr> b (write_field f @ 13 # 10 # t)
    = (if length f \<le> field_limit
       then (case feed parse_reset False t of Inl e \<Rightarrow> Inl e | Inr recs \<Rightarrow> Inr ((fl @ [f]) # recs))
       else Inl FieldLargerThanLimit)"
proof -
  have fin: "feed \<lparr>state = st, field = f, field_list = fl\<rparr> True (13 # 10 # t)
      = (case feed parse_reset False t of Inl e \<Rightarrow> Inl e | Inr recs \<Rightarrow> Inr ((fl @ [f]) # recs))"
    if "st = IN_FIELD \<or> st = QUOTE_IN_QUOTED_FIELD \<or> (st = START_FIELD \<and> f = [])" for st
    using that by (auto simp: step_defs split: sum.splits)
  show ?thesis
  proof (cases "needs_quotes f")
    case True
    have "feed \<lparr>state = START_FIELD, field = [], field_list = fl\<rparr> b (write_field f @ 13 # 10 # t)
        = feed \<lparr>state = IN_QUOTED_FIELD, field = [], field_list = fl\<rparr> True
            (concat (map (\<lambda>c. if c = 34 then [34, 34] else [c]) f) @ 34 # 13 # 10 # t)"
      using True by (simp add: write_field_def step_defs)
    also have "\<dots> = (if length f \<le> field_limit
        then feed \<lparr>state = IN_QUOTED_FIELD, field = f, field_list = fl\<rparr> True (34 # 13 # 10 # t)
        else Inl FieldLargerThanLimit)"
      using feed_quoted_body [of "34 # 13 # 10 # t" "[]" fl True f True] by simp
    also have "\<dots> = (if length f \<le> field_limit
        then feed \<lparr>state = QUOTE_IN_QUOTED_FIELD, field = f, field_list = fl\<rparr> True (13 # 10 # t)
        else Inl FieldLargerThanLimit)"
      by (simp add: step_defs)
    finally show ?thesis
      using fin [of QUOTE_IN_QUOTED_FIELD] by (simp del: feed.simps)
  next
    case False
    show ?thesis
    proof (cases f)
      case Nil
      then show ?thesis
        using fin [of START_FIELD] feed_flag [of "13 # 10 # t" _ b True]
        by (simp add: write_field_def needs_quotes_def del: feed.simps)
    next
      case (Cons c s)
      from False Cons have c: "c \<noteq> 44" "c \<noteq> 34" "c \<noteq> 13" "c \<noteq> 10" and s: "\<not> needs_quotes s"
        by (simp_all add: needs_quotes_def)
      have "feed \<lparr>state = START_FIELD, field = [], field_list = fl\<rparr> b (write_field f @ 13 # 10 # t)
          = feed \<lparr>state = IN_FIELD, field = [c], field_list = fl\<rparr> True (s @ 13 # 10 # t)"
        using False Cons c field_limit_pos by (simp add: write_field_def step_defs)
      also have "\<dots> = (if length f \<le> field_limit
          then feed \<lparr>state = IN_FIELD, field = f, field_list = fl\<rparr> True (13 # 10 # t)
          else Inl FieldLargerThanLimit)"
        using feed_plain [of "13 # 10 # t" s "[c]" fl True True] s Cons field_limit_pos by simp
      finally show ?thesis
        using fin [of IN_FIELD] by (simp del: feed.simps)
    qed
  qed
qed

lemma feed_fields_crlf:
  "fs \<noteq> [] \<Longrightarrow>
   feed \<lparr>state = START_FIELD, field = [], field_list = fl\<rparr> b (join_fields fs @ 13 # 10 # t)
    = (if \<forall>f \<in> set fs. length f \<le> field_limit
       then (case feed parse_reset False t of Inl e \<Rightarrow> Inl e | Inr recs \<Rightarrow> Inr ((fl @ fs) # recs))
       else Inl FieldLargerThanLimit)"
proof (induction fs arbitrary: fl b rule: join_fields.induct)
  case 1
  then show ?case by simp
next
  case (2 f)
  show ?case using feed_field_crlf by simp
next
  case (3 f g fs)
  have "feed \<lparr>state = START_FIELD, field = [], field_list = fl\<rparr> b
          (join_fields (f # g # fs) @ 13 # 10 # t)
      = (if length f \<le> field_limit
         then feed \<lparr>state = START_FIELD, field = [], field_list = fl @ [f]\<rparr> True
          (join_fields (g # fs) @ 13 # 10 # t)
         else Inl FieldLargerThanLimit)"
    using feed_field_comma [of START_FIELD fl b f "join_fields (g # fs) @ 13 # 10 # t"] by simp
  then show ?case
    using "3.IH" [of "fl @ [f]" True] by (simp split: sum.splits)
qed

lemma feed_row:
  assumes "2 \<le> length fs"
  shows "feed parse_reset False (writerow fs @ t)
    = (if \<forall>f \<in> set fs. length f \<le> field_limit
       then (case feed parse_reset False t of Inl e \<Rightarrow> Inl e | Inr recs \<Rightarrow> Inr (fs # recs))
       else Inl FieldLargerThanLimit)"
proof -
  from assms obtain f g fs' where fs: "fs = f # g # fs'"
    by (cases fs; cases "tl fs") auto
  have "feed parse_reset False (writerow fs @ t)
      = feed \<lparr>state = START_RECORD, field = [], field_list = []\<rparr> False
          (write_field f @ 44 # join_fields (g # fs') @ 13 # 10 # t)"
    by (simp add: fs writerow_def parse_reset_def)
  also have "\<dots> = (if length f \<le> field_limit
      then feed \<lparr>state = START_FIELD, field = [], field_list = [f]\<rparr> True
          (join_fields (g # fs') @ 13 # 10 # t)
      else Inl FieldLargerThanLimit)"
    using feed_field_comma [of START_RECORD "[]" False f] by simp
  also have "\<dots> = (if \<forall>f \<in> set fs. length f \<le> field_limit
       then (case feed parse_reset False t of Inl e \<Rightarrow> Inl e | Inr recs \<Rightarrow> Inr (fs # recs))
       else Inl FieldLargerThanLimit)"
    using feed_fields_crlf [of "g # fs'" "[f]" True t] by (simp add: fs split: sum.splits)
  finally show ?thesis .
qed

lemma feed_rows:
  "\<forall>fs \<in> set rows. 2 \<le> length fs \<Longrightarrow>
   feed parse_reset False (concat (map writerow rows))
    = (if \<forall>fs \<in> set rows. \<forall>f \<in> set fs. length f \<le> field_limit then Inr rows
       else Inl FieldLargerThanLimit)"
proof (induction rows)
  case Nil
  show ?case by (simp add: parse_reset_def)
next
  case (Cons fs rows)
  then show ?case
    using feed_row [of fs "concat (map writerow rows)"] by simp
qed

lemma csv_reader_writerows:
  "\<forall>fs \<in> set rows. 2 \<le> length fs \<Longrightarrow>
   csv_reader (concat (map writerow rows))
    = (if \<forall>fs \<in> set rows. \<forall>f \<in> set fs. length f \<le> field_limit then Inr rows
       else Inl FieldLargerThanLimit)"
  by (simp add: csv_reader_feed feed_rows)

section \<open>Trimming\<close>

lemma dropWhile_fixed_iff: "dropWhile P xs = xs \<longleftrightarrow> (xs = [] \<or> \<not> P (hd xs))"
proof (cases xs)
  case Nil
  then show ?thesis by simp
next
  case (Cons a l)
  have "dropWhile P l \<noteq> a # l"
    using length_dropWhile_le [of P l] by (metis impossible_Cons)
  with Cons show ?thesis by simp
qed

lemma lstrip_fixed_iff: "lstrip s = s \<longleftrightarrow> (s = [] \<or> \<not> isspace (hd s))"
  by (simp add: lstrip_def dropWhile_fixed_iff)

lemma rstrip_fixed_iff: "rstrip s = s \<longleftrightarrow> (s = [] \<or> \<not> isspace (last s))"
proof -
  have "rstrip s = s \<longleftrightarrow> dropWhile isspace (rev s) = rev s"
    unfolding rstrip_def by (metis rev_rev_ident)
  also have "\<dots> \<longleftrightarrow> (s = [] \<or> \<not> isspace (last s))"
    by (simp add: dropWhile_fixed_iff hd_rev)
  finally show ?thesis .
qed

lemma lstrip_idem: "lstrip (lstrip s) = lstrip s"
  by (simp add: lstrip_def)

lemma rstrip_idem: "rstrip (rstrip s) = rstrip s"
  by (simp add: rstrip_def)

lemma rstrip_prefix: "prefix (rstrip s) s"
proof -
  have "rev s = takeWhile isspace (rev s) @ dropWhile isspace (rev s)"
    by simp
  then have "s = rev (dropWhile isspace (rev s)) @ rev (takeWhile isspace (rev s))"
    by (metis rev_append rev_rev_ident)
  then show ?thesis
    unfolding rstrip_def by (metis prefixI)
qed

lemma lstrip_rstrip: "lstrip s = s \<Longrightarrow> lstrip (rstrip s) = rstrip s"
proof -
  assume a: "lstrip s = s"
  show ?thesis
  proof (cases "rstrip s")
    case Nil
    then show ?thesis by (simp add: lstrip_def)
  next
    case (Cons c cs)
    with rstrip_prefix [of s] have "hd s = c" "s \<noteq> []"
      by (auto simp: prefix_def)
    with a have "\<not> isspace c"
      by (simp add: lstrip_fixed_iff)
    with Cons show ?thesis
      by (simp add: lstrip_def)
  qed
qed

lemma strip_idem: "strip (strip s) = strip s"
  by (simp add: strip_def lstrip_rstrip lstrip_idem rstrip_idem)

lemma strip_Nil: "strip [] = []"
  by (simp add: strip_def lstrip_def rstrip_def)


section \<open>Reading a caption file\<close>

subsection \<open>When the reader raises\<close>

text \<open>
  The only exception of the reader is the one for a field beyond the field size limit:
  a line of a file never has a character after its line end, so the reader is never in
  the state \<open>EAT_CRNL\<close> before a character other than the line feed after a carriage
  return. A text of no more characters than the limit is read without exception.
\<close>

lemma eol_step:
  "\<exists>r'. parse_process_char r None = Inr r'
     \<and> (state r' = START_RECORD \<or> state r' = IN_QUOTED_FIELD)
     \<and> length (field r') \<le> length (field r)"
  by (cases "state r") (simp_all add: step_defs)

lemma char_step:
  "state r \<noteq> EAT_CRNL \<or> c = 10 \<Longrightarrow> length (field r) < field_limit \<Longrightarrow>
   \<exists>r'. parse_process_char r (Some c) = Inr r'
     \<and> (state r' = EAT_CRNL \<longrightarrow> c = 10 \<or> c = 13)
     \<and> length (field r') \<le> Suc (length (field r))"
  by (cases "state r") (auto simp: step_defs)

lemma char_step_error:
  "state r \<noteq> EAT_CRNL \<or> c = 10 \<Longrightarrow>
   (case parse_process_char r (Some c) of
      Inl e \<Rightarrow> e = FieldLargerThanLimit
    | Inr r' \<Rightarrow> state r' = EAT_CRNL \<longrightarrow> c = 10 \<or> c = 13)"
  by (cases "state r") (auto simp: step_defs)

lemma feed_short:
  "state r = EAT_CRNL \<longrightarrow> (\<exists>t'. t = 10 # t') \<Longrightarrow> length (field r) + length t \<le> field_limit \<Longrightarrow>
   \<exists>recs. feed r b t = Inr recs"
proof (induction t arbitrary: r b)
  case Nil
  obtain r' where "parse_process_char r None = Inr r'"
    using eol_step by blast
  then show ?case by simp
next
  case (Cons c t)
  from Cons.prems have "state r \<noteq> EAT_CRNL \<or> c = 10" "length (field r) < field_limit"
    by auto
  then obtain r1 where r1: "parse_process_char r (Some c) = Inr r1"
    and e1: "state r1 = EAT_CRNL \<longrightarrow> c = 10 \<or> c = 13"
    and l1: "length (field r1) \<le> Suc (length (field r))"
    using char_step by blast
  from l1 Cons.prems(2) have b1: "length (field r1) + length t \<le> field_limit"
    by simp
  show ?case
  proof (cases "c = 10 \<or> (c = 13 \<and> (case t of [] \<Rightarrow> True | d # _ \<Rightarrow> d \<noteq> 10))")
    case True
    obtain r2 where r2: "parse_process_char r1 None = Inr r2"
      and s2: "state r2 = START_RECORD \<or> state r2 = IN_QUOTED_FIELD"
      and l2: "length (field r2) \<le> length (field r1)"
      using eol_step by blast
    obtain recs where a: "feed parse_reset False t = Inr recs"
      using Cons.IH [of parse_reset False] b1 by (auto simp: parse_reset_def)
    obtain recs' where b: "feed r2 False t = Inr recs'"
      using Cons.IH [of r2 False] s2 l2 b1 by auto
    show ?thesis
      unfolding feed_newline [OF r1 True] line_end_def using r2 a b by simp
  next
    case False
    then have "state r1 = EAT_CRNL \<longrightarrow> (\<exists>t'. t = 10 # t')"
      using e1 by (cases t) auto
    then obtain recs where "feed r1 True t = Inr recs"
      using Cons.IH b1 by blast
    then show ?thesis
      unfolding feed_continue [OF r1 False] by blast
  qed
qed

lemma csv_reader_short: "length inp \<le> field_limit \<Longrightarrow> \<exists>recs. csv_reader inp = Inr recs"
  unfolding csv_reader_feed by (rule feed_short) (simp_all add: parse_reset_def)

lemma feed_raises_limit:
  "state r = EAT_CRNL \<longrightarrow> (\<exists>t'. t = 10 # t') \<Longrightarrow> feed r b t = Inl e \<Longrightarrow>
   e = FieldLargerThanLimit"
proof (induction t arbitrary: r b)
  case Nil
  obtain r' where "parse_process_char r None = Inr r'"
    using eol_step by blast
  with Nil.prems(2) show ?case by (simp split: if_splits)
next
  case (Cons c t)
  from Cons.prems have ok: "state r \<noteq> EAT_CRNL \<or> c = 10"
    by auto
  show ?case
  proof (cases "parse_process_char r (Some c)")
    case (Inl e')
    with char_step_error [OF ok] Cons.prems(2) show ?thesis
      by simp
  next
    case (Inr r1)
    with char_step_error [OF ok] have e1: "state r1 = EAT_CRNL \<longrightarrow> c = 10 \<or> c = 13"
      by simp
    show ?thesis
    proof (cases "c = 10 \<or> (c = 13 \<and> (case t of [] \<Rightarrow> True | d # _ \<Rightarrow> d \<noteq> 10))")
      case True
      obtain r2 where r2: "parse_process_char r1 None = Inr r2"
        and s2: "state r2 = START_RECORD \<or> state r2 = IN_QUOTED_FIELD"
        using eol_step by blast
      have a: "feed parse_reset False t = Inl e \<Longrightarrow> e = FieldLargerThanLimit"
        by (rule Cons.IH [of parse_reset False]) (simp_all add: parse_reset_def)
      have b: "feed r2 False t = Inl e \<Longrightarrow> e = FieldLargerThanLimit"
        using s2 by (intro Cons.IH [of r2 False]) auto
      from Cons.prems(2) show ?thesis
        unfolding feed_newline [OF Inr True] line_end_def using r2 a b
        by (simp split: if_splits sum.splits)
    next
      case False
      then have "state r1 = EAT_CRNL \<longrightarrow> (\<exists>t'. t = 10 # t')"
        using e1 by (cases t) auto
      moreover have "feed r1 True t = Inl e"
        using Cons.prems(2) unfolding feed_continue [OF Inr False] .
      ultimately show ?thesis
        by (rule Cons.IH)
    qed
  qed
qed

lemma csv_reader_raises_limit: "csv_reader inp = Inl e \<Longrightarrow> e = FieldLargerThanLimit"
  unfolding csv_reader_feed by (rule feed_raises_limit [of parse_reset]) (simp_all add: parse_reset_def)

subsection \<open>The fields the reader returns\<close>

text \<open>
  A property of fields that the empty field has, and that a field keeps when a character
  of the text is added to it below the limit, holds of every field the reader returns.
\<close>

lemma step_fields:
  assumes "P []" and "\<And>a x. P a \<Longrightarrow> length a < field_limit \<Longrightarrow> x \<in> A \<Longrightarrow> P (a @ [x])"
    and "parse_process_char r c = Inr r'" and "P (field r)" and "\<forall>f \<in> set (field_list r). P f"
    and "\<forall>x. c = Some x \<longrightarrow> x \<in> A"
  shows "P (field r') \<and> (\<forall>f \<in> set (field_list r'). P f)"
proof -
  have add: "P (field r @ [x])" if "\<not> field_limit \<le> length (field r)" "c = Some x" for x
    using assms(2) [of "field r" x] assms(4,6) that by simp
  show ?thesis
    using assms(1,3,4,5) add
    by (cases "state r"; cases c) (auto simp: step_defs split: if_splits)
qed

lemma feed_fields:
  assumes e: "P []" and a: "\<And>a x. P a \<Longrightarrow> length a < field_limit \<Longrightarrow> x \<in> A \<Longrightarrow> P (a @ [x])"
  shows "feed r b t = Inr recs \<Longrightarrow> P (field r) \<Longrightarrow> \<forall>f \<in> set (field_list r). P f \<Longrightarrow>
    set t \<subseteq> A \<Longrightarrow> \<forall>fs \<in> set recs. \<forall>f \<in> set fs. P f"
proof (induction t arbitrary: r b recs)
  case Nil
  have fin: "\<forall>fs \<in> set recs'. \<forall>f \<in> set fs. P f"
    if "read_records r' [] = Inr recs'" "P (field r')" "\<forall>f \<in> set (field_list r'). P f" for r' recs'
    using that by (auto simp: parse_save_field_def split: if_splits)
  show ?case
  proof (cases b)
    case False
    with Nil show ?thesis using fin [of r recs] by simp
  next
    case True
    with Nil.prems(1) obtain r' where r': "parse_process_char r None = Inr r'"
      by (auto split: sum.splits)
    have p: "P (field r') \<and> (\<forall>f \<in> set (field_list r'). P f)"
      by (rule step_fields [OF e a r' Nil.prems(2,3)]) simp_all
    show ?thesis
    proof (cases "state r' = START_RECORD")
      case sr: True
      with Nil.prems(1) True r' have "recs = [field_list r']"
        by simp
      with p show ?thesis by simp
    next
      case sr: False
      with Nil.prems(1) True r' have "read_records r' [] = Inr recs"
        by simp
      with p show ?thesis using fin by blast
    qed
  qed
next
  case (Cons c t)
  from Cons.prems(1) obtain r1 where r1: "parse_process_char r (Some c) = Inr r1"
    by (auto split: sum.splits)
  from Cons.prems(4) have cA: "\<forall>x. Some c = Some x \<longrightarrow> x \<in> A" and t: "set t \<subseteq> A"
    by simp_all
  have p1: "P (field r1) \<and> (\<forall>f \<in> set (field_list r1). P f)"
    by (rule step_fields [OF e a r1 Cons.prems(2,3) cA])
  show ?case
  proof (cases "c = 10 \<or> (c = 13 \<and> (case t of [] \<Rightarrow> True | d # _ \<Rightarrow> d \<noteq> 10))")
    case False
    have "feed r1 True t = Inr recs"
      using Cons.prems(1) unfolding feed_continue [OF r1 False] .
    then show ?thesis
      using p1 t by (intro Cons.IH [of r1 True recs]) simp_all
  next
    case True
    have le: "line_end r1 (\<lambda>r. feed r False t) = Inr recs"
      using Cons.prems(1) unfolding feed_newline [OF r1 True] .
    then obtain r2 where r2: "parse_process_char r1 None = Inr r2"
      by (auto simp: line_end_def split: sum.splits)
    have p2: "P (field r2) \<and> (\<forall>f \<in> set (field_list r2). P f)"
      using p1 by (intro step_fields [OF e a r2]) simp_all
    show ?thesis
    proof (cases "state r2 = START_RECORD")
      case sr: True
      with le r2 obtain recs' where recs': "feed parse_reset False t = Inr recs'"
        and recs: "recs = field_list r2 # recs'"
        by (auto simp: line_end_def split: sum.splits)
      have "\<forall>fs \<in> set recs'. \<forall>f \<in> set fs. P f"
        using recs' e t by (intro Cons.IH [of parse_reset False recs']) (simp_all add: parse_reset_def)
      with p2 recs show ?thesis by simp
    next
      case sr: False
      with le r2 have "feed r2 False t = Inr recs"
        by (simp add: line_end_def)
      then show ?thesis
        using p2 t by (intro Cons.IH [of r2 False recs]) simp_all
    qed
  qed
qed

lemma csv_reader_fields:
  assumes "csv_reader inp = Inr recs" and "encodable inp"
    and "fs \<in> set recs" and "f \<in> set fs"
  shows "length f \<le> field_limit \<and> encodable f"
proof -
  let ?A = "{c. \<not> (55296 \<le> c \<and> c \<le> 57343)}"
  let ?P = "\<lambda>f. length f \<le> field_limit \<and> encodable f"
  have "\<forall>fs \<in> set recs. \<forall>f \<in> set fs. ?P f"
  proof (rule feed_fields [where P = ?P and A = ?A and r = parse_reset and b = False and t = inp])
    show "?P []" by (simp add: encodable_def)
    show "?P (a @ [x])" if "?P a" "length a < field_limit" "x \<in> ?A" for a x
      using that by (simp add: encodable_def)
    show "feed parse_reset False inp = Inr recs"
      using assms(1) by (simp add: csv_reader_feed)
    show "?P (field parse_reset)" by (simp add: parse_reset_def encodable_def)
    show "\<forall>f \<in> set (field_list parse_reset). ?P f" by (simp add: parse_reset_def)
    show "set inp \<subseteq> ?A"
      using assms(2) by (auto simp: encodable_def list_all_iff)
  qed
  with assms(3,4) show ?thesis by blast
qed

subsection \<open>What a caption mapping read from a file holds\<close>

lemma add_row_trimmed: "trimmed m \<Longrightarrow> trimmed (add_row row m)"
  by (auto simp: trimmed_def add_row_def Let_def strip_idem)

lemma fold_add_row_trimmed: "trimmed m \<Longrightarrow> trimmed (fold add_row rows m)"
  by (induction rows arbitrary: m) (simp_all add: add_row_trimmed)

lemma load_captions_read_existing: "load_captions = read_existing"
  by (rule ext) (simp add: load_captions_def read_existing_def)

lemma set_strip: "set (strip s) \<subseteq> set s"
proof -
  have "set (rstrip t) \<subseteq> set t" for t
    using set_dropWhileD [of _ isspace "rev t"] by (auto simp: rstrip_def)
  moreover have "set (lstrip s) \<subseteq> set s"
    using set_dropWhileD [of _ isspace s] by (auto simp: lstrip_def)
  ultimately show ?thesis
    unfolding strip_def by blast
qed

lemma length_strip: "length (strip s) \<le> length s"
proof -
  have "length (rstrip t) \<le> length t" for t
    using length_dropWhile_le [of isspace "rev t"] by (simp add: rstrip_def)
  moreover have "length (lstrip s) \<le> length s"
    by (simp add: lstrip_def length_dropWhile_le)
  ultimately show ?thesis
    unfolding strip_def using le_trans by blast
qed

lemma encodable_strip: "encodable s \<Longrightarrow> encodable (strip s)"
  using set_strip [of s] by (auto simp: encodable_def list_all_iff)

lemma encodable_Nil: "encodable []"
  by (simp add: encodable_def)

lemma encodable_Cons: "encodable (c # s) \<longleftrightarrow> \<not> (55296 \<le> c \<and> c \<le> 57343) \<and> encodable s"
  by (simp add: encodable_def)

lemma encodable_append: "encodable (a @ b) \<longleftrightarrow> encodable a \<and> encodable b"
  by (simp add: encodable_def)

lemma encodable_concat: "encodable (concat xs) \<longleftrightarrow> (\<forall>x \<in> set xs. encodable x)"
  by (induction xs) (simp_all add: encodable_Nil encodable_append)

lemma fold_unset: "fold (\<lambda>key d. d(key := None)) ks m k = Some v \<Longrightarrow> m k = Some v"
proof (induction ks arbitrary: m)
  case Nil
  then show ?case by simp
next
  case (Cons a ks)
  have "fold (\<lambda>key d. d(key := None)) ks (m(a := None)) k = Some v"
    using Cons.prems by (simp only: fold_simps)
  then have "(m(a := None)) k = Some v"
    by (rule Cons.IH)
  then show ?case
    by (simp split: if_splits)
qed

lemma row_dict_value: "row_dict names row k = Some v \<Longrightarrow> v \<in> set row"
proof -
  assume "row_dict names row k = Some v"
  then have "map_of (rev (zip names row)) k = Some v"
    unfolding row_dict_def by (rule fold_unset)
  then have "(k, v) \<in> set (zip names row)"
    using map_of_SomeD by fastforce
  then show ?thesis
    by (rule set_zip_rightD)
qed

lemma DictReader_value:
  "d \<in> set (DictReader recs) \<Longrightarrow> d k = Some v \<Longrightarrow> \<exists>row \<in> set recs. v \<in> set row"
  by (cases recs) (auto simp: DictReader_def dest: row_dict_value)

lemma get_or_empty_cases:
  "get_or_empty d k = [] \<or> d k = Some (get_or_empty d k)"
  by (simp add: get_or_empty_def split: option.splits)

lemma add_row_fields:
  assumes d: "\<forall>k v. d k = Some v \<longrightarrow> length v \<le> field_limit \<and> encodable v"
    and m: "\<forall>k c. m k = Some c \<longrightarrow>
      length (title c) \<le> field_limit \<and> encodable (title c)
      \<and> length (note c) \<le> field_limit \<and> encodable (note c)"
  shows "\<forall>k c. add_row d m k = Some c \<longrightarrow>
      length (title c) \<le> field_limit \<and> encodable (title c)
      \<and> length (note c) \<le> field_limit \<and> encodable (note c)"
proof -
  have g: "length (strip (get_or_empty d k)) \<le> field_limit \<and> encodable (strip (get_or_empty d k))"
    for k
  proof -
    have "length (get_or_empty d k) \<le> field_limit \<and> encodable (get_or_empty d k)"
      using get_or_empty_cases [of d k] d by (auto simp: encodable_Nil)
    then show ?thesis
      using length_strip [of "get_or_empty d k"] encodable_strip by auto
  qed
  show ?thesis
    using m g by (auto simp: add_row_def Let_def split: if_splits)
qed

lemma fold_add_row_fields:
  assumes "\<forall>d \<in> set ds. \<forall>k v. d k = Some v \<longrightarrow> length v \<le> field_limit \<and> encodable v"
    and "\<forall>k c. m k = Some c \<longrightarrow>
      length (title c) \<le> field_limit \<and> encodable (title c)
      \<and> length (note c) \<le> field_limit \<and> encodable (note c)"
  shows "\<forall>k c. fold add_row ds m k = Some c \<longrightarrow>
      length (title c) \<le> field_limit \<and> encodable (title c)
      \<and> length (note c) \<le> field_limit \<and> encodable (note c)"
  using assms
proof (induction ds arbitrary: m)
  case Nil
  then show ?case by simp
next
  case (Cons d ds)
  have "\<forall>k c. add_row d m k = Some c \<longrightarrow>
      length (title c) \<le> field_limit \<and> encodable (title c)
      \<and> length (note c) \<le> field_limit \<and> encodable (note c)"
    using Cons.prems by (intro add_row_fields) simp_all
  then show ?case
    using Cons.prems(1) by (simp del: fun_upd_apply) (rule Cons.IH, simp_all)
qed

lemma decode_sig_encodable: "encodable content \<Longrightarrow> encodable (decode_sig content)"
  by (cases content) (simp_all add: decode_sig_def encodable_def)

lemma read_text_encodable: "read_text f = Inr content \<Longrightarrow> encodable content"
  by (cases f) (auto simp: read_text_def split: if_splits intro: decode_sig_encodable)

text \<open>
  What the read operation returns when it returns: the rows of the file folded into a
  mapping, which is trimmed, and whose titles and notes are within the field size limit
  and can be encoded.
\<close>

lemma read_existing_Inr:
  assumes "read_existing csv_file = Inr m"
  shows "trimmed m"
    and "m k = Some c \<Longrightarrow> length (title c) \<le> field_limit \<and> encodable (title c)
      \<and> length (note c) \<le> field_limit \<and> encodable (note c)"
proof -
  have e: "trimmed Map.empty"
    by (simp add: trimmed_def)
  have both: "trimmed m \<and> (\<forall>k c. m k = Some c \<longrightarrow>
      length (title c) \<le> field_limit \<and> encodable (title c)
      \<and> length (note c) \<le> field_limit \<and> encodable (note c))"
  proof (cases csv_file)
    case None
    with assms have "m = Map.empty"
      by (simp add: read_existing_def)
    then show ?thesis using e by simp
  next
    case (Some f)
    with assms obtain content recs where c: "read_text f = Inr content"
      and r: "csv_reader content = Inr recs"
      and m: "m = fold add_row (DictReader recs) Map.empty"
      by (auto simp: read_existing_def split: sum.splits)
    have enc: "encodable content"
      using c by (rule read_text_encodable)
    have "\<forall>d \<in> set (DictReader recs). \<forall>k v. d k = Some v \<longrightarrow> length v \<le> field_limit \<and> encodable v"
    proof (intro ballI allI impI)
      fix d k v
      assume "d \<in> set (DictReader recs)" "d k = Some v"
      then obtain row where "row \<in> set recs" "v \<in> set row"
        using DictReader_value by blast
      then show "length v \<le> field_limit \<and> encodable v"
        by (rule csv_reader_fields [OF r enc])
    qed
    then have "\<forall>k c. fold add_row (DictReader recs) Map.empty k = Some c \<longrightarrow>
      length (title c) \<le> field_limit \<and> encodable (title c)
      \<and> length (note c) \<le> field_limit \<and> encodable (note c)"
      by (rule fold_add_row_fields) simp
    moreover have "trimmed (fold add_row (DictReader recs) Map.empty)"
      using e by (rule fold_add_row_trimmed)
    ultimately show ?thesis
      unfolding m by blast
  qed
  from both show "trimmed m" by blast
  from both show "m k = Some c \<Longrightarrow> length (title c) \<le> field_limit \<and> encodable (title c)
      \<and> length (note c) \<le> field_limit \<and> encodable (note c)"
    by blast
qed

lemma read_existing_short:
  assumes "encodable content" and "length content \<le> field_limit"
  shows "\<exists>m. read_existing (Some (Text content)) = Inr m"
proof -
  have "length (decode_sig content) \<le> field_limit"
    using assms(2) by (cases content) (simp_all add: decode_sig_def)
  then obtain recs where "csv_reader (decode_sig content) = Inr recs"
    using csv_reader_short by blast
  then show ?thesis
    using assms(1) by (simp add: read_existing_def read_text_def)
qed

subsection \<open>What the writer leaves in the file\<close>

lemma write_records_None:
  "write_records out rs = (content, None) \<longleftrightarrow>
     content = out @ concat rs \<and> (\<forall>r \<in> set rs. encodable r)"
  by (induction rs arbitrary: out) auto

lemma write_records_encodable:
  "encodable out \<Longrightarrow> encodable (fst (write_records out rs))"
  by (induction rs arbitrary: out) (simp_all add: encodable_append)

lemma encodable_write_field: "encodable (write_field f) \<longleftrightarrow> encodable f"
proof -
  have "encodable (concat (map (\<lambda>c. if c = 34 then [34, 34] else [c]) f)) \<longleftrightarrow> encodable f"
    by (induction f) (simp_all add: encodable_def)
  then show ?thesis
    by (simp add: write_field_def encodable_append) (simp add: encodable_def)
qed

lemma encodable_join_fields: "encodable (join_fields fs) \<longleftrightarrow> (\<forall>f \<in> set fs. encodable f)"
proof (induction fs rule: join_fields.induct)
  case 1
  show ?case by (simp add: encodable_Nil)
next
  case (2 f)
  show ?case by (simp add: encodable_write_field)
next
  case (3 f g fs)
  then show ?case by (simp add: encodable_append encodable_Cons encodable_write_field)
qed

lemma encodable_writerow: "encodable (writerow fs) \<longleftrightarrow> (\<forall>f \<in> set fs. encodable f)"
proof -
  have c: "encodable [13, 10]" "encodable [34, 34]"
    by (simp_all add: encodable_def)
  show ?thesis
  proof (cases "fs = [[]]")
    case True
    then show ?thesis using c by (simp add: writerow_def encodable_Nil encodable_def)
  next
    case False
    then show ?thesis using c(1) by (simp add: writerow_def encodable_append encodable_join_fields)
  qed
qed

lemma encodable_fieldnames: "f \<in> set fieldnames \<Longrightarrow> encodable f"
  by (auto simp: fieldnames_def encodable_def lit_def)

text \<open>
  The write operation ends without exception exactly when every field of every row can
  be encoded; the file is then the byte-order mark, the header and one record per row.
\<close>

lemma write_csv_None:
  "write_csv rows = (content, None) \<longleftrightarrow>
     content = [65279] @ concat (map writerow (fieldnames # map dict_to_list rows))
     \<and> (\<forall>r \<in> set rows. encodable (filename r) \<and> encodable (title r) \<and> encodable (note r))"
  unfolding write_csv_def write_records_None
  by (auto simp: encodable_fieldnames encodable_writerow dict_to_list_def comp_def)

lemma write_csv_encodable: "encodable (fst (write_csv rows))"
  unfolding write_csv_def by (rule write_records_encodable) (simp add: encodable_def)

lemma add_row_written:
  "add_row (row_dict fieldnames (dict_to_list r)) m = read_back_row r m"
  by (simp add: add_row_def read_back_row_def row_dict_def fieldnames_def dict_to_list_def
      get_or_empty_def lit_def Let_def)

lemma DictReader_written:
  "DictReader (fieldnames # map dict_to_list rows)
     = map (\<lambda>r. row_dict fieldnames (dict_to_list r)) rows"
proof -
  have "filter (\<lambda>row. row \<noteq> []) (map dict_to_list rows) = map dict_to_list rows"
    by (induction rows) (simp_all add: dict_to_list_def)
  then show ?thesis
    by (simp add: DictReader_def comp_def)
qed

lemma fold_add_row_written:
  "fold add_row (map (\<lambda>r. row_dict fieldnames (dict_to_list r)) rows) m = fold read_back_row rows m"
  by (induction rows arbitrary: m) (simp_all add: add_row_written)

text \<open>
  Reading a written file back gives the rows in their order, each with its fields
  trimmed, unless a field is longer than the field size limit: then the read raises.
\<close>

lemma read_write_csv:
  assumes "write_csv rows = (content, None)"
  shows "read_existing (Some (Text content)) =
    (if \<forall>r \<in> set rows. length (filename r) \<le> field_limit \<and> length (title r) \<le> field_limit
          \<and> length (note r) \<le> field_limit
     then Inr (fold read_back_row rows Map.empty)
     else Inl (CsvError FieldLargerThanLimit))"
proof -
  let ?recs = "fieldnames # map dict_to_list rows"
  from assms have c: "content = [65279] @ concat (map writerow ?recs)"
    by (simp add: write_csv_None)
  have "encodable (fst (write_csv rows))"
    by (rule write_csv_encodable)
  with assms have enc: "encodable content"
    by simp
  have d: "decode_sig content = concat (map writerow ?recs)"
    unfolding c by (simp add: decode_sig_def)
  have two: "\<forall>fs \<in> set ?recs. 2 \<le> length fs"
    by (auto simp: fieldnames_def dict_to_list_def)
  have lim: "(\<forall>fs \<in> set ?recs. \<forall>f \<in> set fs. length f \<le> field_limit)
    \<longleftrightarrow> (\<forall>r \<in> set rows. length (filename r) \<le> field_limit \<and> length (title r) \<le> field_limit
          \<and> length (note r) \<le> field_limit)"
    by (auto simp: fieldnames_def dict_to_list_def lit_def field_limit_def)
  have "csv_reader (decode_sig content) =
    (if \<forall>r \<in> set rows. length (filename r) \<le> field_limit \<and> length (title r) \<le> field_limit
          \<and> length (note r) \<le> field_limit
     then Inr ?recs else Inl FieldLargerThanLimit)"
    unfolding d csv_reader_writerows [OF two] lim ..
  then show ?thesis
    using enc by (simp add: read_existing_def read_text_def DictReader_written fold_add_row_written)
qed

lemma read_back_trimmed_rows:
  assumes "\<forall>r \<in> set rows. filename r \<noteq> [] \<and> strip (filename r) = filename r
      \<and> strip (title r) = title r \<and> strip (note r) = note r"
  shows "fold read_back_row rows m
    = fold (\<lambda>r m. m(filename r \<mapsto> \<lparr>title = title r, note = note r\<rparr>)) rows m"
  using assms by (induction rows arbitrary: m) (simp_all add: read_back_row_def)

text \<open>
  Claim C8. The read operation of either script returns the empty mapping when the file
  does not exist. On a file that decodes, and whose records the csv reader returns, it
  returns the rows folded into a mapping, whatever the rows hold: no row raises. A file
  of valid UTF-8 with no more characters than the field size limit is always read. A row
  whose filename is missing or empty after trimming leaves the mapping as it is. A row
  with a filename adds an entry whose title and note are the trimmed fields, the empty
  string when the column is missing or blank.
\<close>

theorem absent_file_and_blank_fields:
  \<open>read_existing None = Inr Map.empty \<and> load_captions None = Inr Map.empty
   \<and> load_captions csv_file = read_existing csv_file
   \<and> (\<forall>content recs. read_text f = Inr content \<and> csv_reader content = Inr recs
        \<longrightarrow> read_existing (Some f) = Inr (fold add_row (DictReader recs) Map.empty)
          \<and> trimmed (fold add_row (DictReader recs) Map.empty))
   \<and> (encodable content \<and> length content \<le> field_limit
        \<longrightarrow> (\<exists>m. read_existing (Some (Text content)) = Inr m))
   \<and> (row (lit ''filename'') = None \<or> strip (get_or_empty row (lit ''filename'')) = []
        \<longrightarrow> add_row row data = data)
   \<and> (strip (get_or_empty row (lit ''filename'')) \<noteq> []
        \<longrightarrow> (\<exists>c. add_row row data (strip (get_or_empty row (lit ''filename''))) = Some c
              \<and> title c = strip (get_or_empty row (lit ''title''))
              \<and> note c = strip (get_or_empty row (lit ''note''))
              \<and> (row (lit ''title'') = None \<or> strip (get_or_empty row (lit ''title'')) = []
                   \<longrightarrow> title c = [])
              \<and> (row (lit ''note'') = None \<or> strip (get_or_empty row (lit ''note'')) = []
                   \<longrightarrow> note c = [])))\<close>
proof -
  have a: "read_existing None = Inr Map.empty \<and> load_captions None = Inr Map.empty"
    by (simp add: read_existing_def load_captions_def)
  have l: "load_captions csv_file = read_existing csv_file"
    by (simp add: load_captions_read_existing)
  have b: "\<forall>content recs. read_text f = Inr content \<and> csv_reader content = Inr recs
        \<longrightarrow> read_existing (Some f) = Inr (fold add_row (DictReader recs) Map.empty)
          \<and> trimmed (fold add_row (DictReader recs) Map.empty)"
  proof (intro allI impI)
    fix content recs
    assume h: "read_text f = Inr content \<and> csv_reader content = Inr recs"
    then have "read_existing (Some f) = Inr (fold add_row (DictReader recs) Map.empty)"
      by (simp add: read_existing_def)
    moreover from this have "trimmed (fold add_row (DictReader recs) Map.empty)"
      by (rule read_existing_Inr(1))
    ultimately show "read_existing (Some f) = Inr (fold add_row (DictReader recs) Map.empty)
          \<and> trimmed (fold add_row (DictReader recs) Map.empty)"
      by blast
  qed
  have s: "encodable content \<and> length content \<le> field_limit
        \<longrightarrow> (\<exists>m. read_existing (Some (Text content)) = Inr m)"
    using read_existing_short by blast
  have n: "get_or_empty row k = []" if "row k = None" for k
    using that by (simp add: get_or_empty_def)
  have c: "row (lit ''filename'') = None \<or> strip (get_or_empty row (lit ''filename'')) = []
        \<longrightarrow> add_row row data = data"
    by (auto simp: add_row_def n strip_Nil)
  have d: "strip (get_or_empty row (lit ''filename'')) \<noteq> []
        \<longrightarrow> (\<exists>c. add_row row data (strip (get_or_empty row (lit ''filename''))) = Some c
              \<and> title c = strip (get_or_empty row (lit ''title''))
              \<and> note c = strip (get_or_empty row (lit ''note''))
              \<and> (row (lit ''title'') = None \<or> strip (get_or_empty row (lit ''title'')) = []
                   \<longrightarrow> title c = [])
              \<and> (row (lit ''note'') = None \<or> strip (get_or_empty row (lit ''note'')) = []
                   \<longrightarrow> note c = []))"
    by (auto simp: add_row_def n strip_Nil)
  from a l b s c d show ?thesis by blast
qed

lemmas reader_eval = csv_reader_def process_line_def step_defs parse_reset_def decode_sig_def
  DictReader_def row_dict_def add_row_def get_or_empty_def strip_def lstrip_def rstrip_def
  isspace_def lit_def read_existing_def read_text_def field_limit_def

lemma eval_read:
  \<open>read_existing (Some (Text (lit ''filename,title,note'' @ [13, 10] @ lit ''a.jpg,X,'' @ [13, 10]
      @ lit ''c.jpg,Y,'' @ [13, 10])))
   = Inr [lit ''a.jpg'' \<mapsto> \<lparr>title = lit ''X'', note = []\<rparr>,
          lit ''c.jpg'' \<mapsto> \<lparr>title = lit ''Y'', note = []\<rparr>]\<close>
  by (simp add: reader_eval encodable_def)

theorem absent_file_and_blank_fields_witness:
  \<open>read_existing None = Inr Map.empty
   \<and> read_existing (Some (Text (lit ''filename,title,note'' @ [13, 10] @ lit '' ,X,Y'' @ [13, 10]
        @ lit ''a.jpg'' @ [13, 10] @ lit ''b.jpg,  ,N'' @ [13, 10])))
     = Inr [lit ''a.jpg'' \<mapsto> \<lparr>title = [], note = []\<rparr>,
            lit ''b.jpg'' \<mapsto> \<lparr>title = [], note = lit ''N''\<rparr>]\<close>
  using absent_file_and_blank_fields [of
      \<open>Some (Text (lit ''filename,title,note'' @ [13, 10] @ lit '' ,X,Y'' @ [13, 10]
        @ lit ''a.jpg'' @ [13, 10] @ lit ''b.jpg,  ,N'' @ [13, 10]))\<close>
      \<open>Text (lit ''filename,title,note'' @ [13, 10] @ lit '' ,X,Y'' @ [13, 10]
        @ lit ''a.jpg'' @ [13, 10] @ lit ''b.jpg,  ,N'' @ [13, 10])\<close>
      \<open>lit ''filename,title,note'' @ [13, 10] @ lit '' ,X,Y'' @ [13, 10]
        @ lit ''a.jpg'' @ [13, 10] @ lit ''b.jpg,  ,N'' @ [13, 10]\<close>
      Map.empty Map.empty]
  by (simp add: reader_eval encodable_def)

text \<open>
  Claim C4, as amended. A sequence of rows whose fields can be encoded is written without
  exception, and when no field is longer than the field size limit of the csv module
  (131072 characters), reading the file back trims every field and skips a row whose
  trimmed filename is empty. Hence, for such rows whose filenames are not empty and whose
  filenames, titles and notes have no whitespace at either end, the mapping read back is
  the mapping the rows denote, whatever commas, double quotes and embedded newlines the
  titles and notes hold.
\<close>

theorem write_read_roundtrip:
  assumes "\<forall>r \<in> set rows. encodable (filename r) \<and> encodable (title r) \<and> encodable (note r)
      \<and> length (filename r) \<le> field_limit \<and> length (title r) \<le> field_limit
      \<and> length (note r) \<le> field_limit"
  shows "\<exists>content. write_csv rows = (content, None)
    \<and> read_existing (Some (Text content)) = Inr (fold read_back_row rows Map.empty)
    \<and> load_captions (Some (Text content)) = Inr (fold read_back_row rows Map.empty)
    \<and> ((\<forall>r \<in> set rows. filename r \<noteq> [] \<and> strip (filename r) = filename r
          \<and> strip (title r) = title r \<and> strip (note r) = note r)
        \<longrightarrow> read_existing (Some (Text content)) = Inr (rows_mapping rows)
          \<and> load_captions (Some (Text content)) = Inr (rows_mapping rows))"
proof -
  let ?content = "[65279] @ concat (map writerow (fieldnames # map dict_to_list rows))"
  have w: "write_csv rows = (?content, None)"
    using assms unfolding write_csv_None by simp
  have lim: "\<forall>r \<in> set rows. length (filename r) \<le> field_limit \<and> length (title r) \<le> field_limit
      \<and> length (note r) \<le> field_limit"
    using assms by simp
  have r: "read_existing (Some (Text ?content)) = Inr (fold read_back_row rows Map.empty)"
    unfolding read_write_csv [OF w] using lim by simp
  show ?thesis
    using w r
    by (intro exI [of _ ?content])
      (simp add: load_captions_read_existing rows_mapping_def read_back_trimmed_rows)
qed

lemmas writer_eval = write_csv_def writerow_def write_field_def needs_quotes_def fieldnames_def
  dict_to_list_def encodable_def

theorem write_read_roundtrip_witness:
  \<open>read_existing (Some (Text ([65279] @ lit ''filename,title,note'' @ [13, 10]
      @ lit ''a.jpg,"a,b","x""y'' @ [10] @ lit ''z"'' @ [13, 10]
      @ lit ''b.png,,it's'' @ [13, 10])))
   = Inr [lit ''a.jpg'' \<mapsto> \<lparr>title = lit ''a,b'', note = lit ''x"y'' @ [10] @ lit ''z''\<rparr>,
          lit ''b.png'' \<mapsto> \<lparr>title = [], note = lit ''it's''\<rparr>]\<close>
  using write_read_roundtrip [of
      \<open>[\<lparr>title = lit ''a,b'', note = lit ''x"y'' @ [10] @ lit ''z'', filename = lit ''a.jpg''\<rparr>,
       \<lparr>title = [], note = lit ''it's'', filename = lit ''b.png''\<rparr>]\<close>]
  by (simp add: rows_mapping_def read_back_row_def strip_def lstrip_def rstrip_def isspace_def
      lit_def writer_eval field_limit_def)

text \<open>
  Claim C4 as stated fails for a title that begins with a space: the title read back has
  lost the space. It fails as well for a title of 131073 characters: the row is written,
  and reading the file back raises the error of the csv module.
\<close>

theorem untrimmed_title_counterexample:
  \<open>write_csv [\<lparr>title = lit '' x'', note = [], filename = lit ''a.jpg''\<rparr>]
     = ([65279] @ lit ''filename,title,note'' @ [13, 10] @ lit ''a.jpg, x,'' @ [13, 10], None)
   \<and> read_existing (Some (Text ([65279] @ lit ''filename,title,note'' @ [13, 10]
        @ lit ''a.jpg, x,'' @ [13, 10])))
     = Inr [lit ''a.jpg'' \<mapsto> \<lparr>title = lit ''x'', note = []\<rparr>]
   \<and> rows_mapping [\<lparr>title = lit '' x'', note = [], filename = lit ''a.jpg''\<rparr>]
     = [lit ''a.jpg'' \<mapsto> \<lparr>title = lit '' x'', note = []\<rparr>]
   \<and> lit ''x'' \<noteq> lit '' x''
   \<and> snd (write_csv [\<lparr>title = replicate 131073 120, note = [], filename = lit ''a.jpg''\<rparr>]) = None
   \<and> read_existing (Some (Text (fst (write_csv
        [\<lparr>title = replicate 131073 120, note = [], filename = lit ''a.jpg''\<rparr>]))))
     = Inl (CsvError FieldLargerThanLimit)\<close>
proof -
  let ?r = \<open>\<lparr>title = lit '' x'', note = [], filename = lit ''a.jpg''\<rparr>\<close>
  let ?content = \<open>[65279] @ lit ''filename,title,note'' @ [13, 10] @ lit ''a.jpg, x,'' @ [13, 10]\<close>
  have w: "write_csv [?r] = (?content, None)"
    by (simp add: writer_eval lit_def)
  have r: \<open>read_existing (Some (Text ?content)) = Inr [lit ''a.jpg'' \<mapsto> \<lparr>title = lit ''x'', note = []\<rparr>]\<close>
    unfolding read_write_csv [OF w]
    by (simp add: read_back_row_def strip_def lstrip_def rstrip_def isspace_def lit_def
        field_limit_def)
  have m: \<open>rows_mapping [?r] = [lit ''a.jpg'' \<mapsto> \<lparr>title = lit '' x'', note = []\<rparr>]\<close>
    by (simp add: rows_mapping_def)
  have n: \<open>lit ''x'' \<noteq> lit '' x''\<close>
    by (simp add: lit_def)
  let ?long = \<open>[\<lparr>title = replicate 131073 120, note = [], filename = lit ''a.jpg''\<rparr>]\<close>
  have "\<forall>r \<in> set ?long. encodable (filename r) \<and> encodable (title r) \<and> encodable (note r)"
    by (simp add: encodable_def lit_def list_all_iff)
  then have wl: "write_csv ?long = (fst (write_csv ?long), None)"
    using write_csv_None [of ?long "[65279] @ concat (map writerow (fieldnames # map dict_to_list ?long))"]
    by simp
  have rl: "read_existing (Some (Text (fst (write_csv ?long)))) = Inl (CsvError FieldLargerThanLimit)"
    unfolding read_write_csv [OF wl] by (simp add: field_limit_def)
  from wl have "snd (write_csv ?long) = None"
    by (metis snd_conv)
  with w r m n rl show ?thesis
    by blast
qed

section \<open>The Synchronizer\<close>

lemma sync_loop_eq:
  "sync_loop existing images (rows, added)
     = (rows @ map (reconciled_row existing) images,
        added + length (filter (\<lambda>fn. existing fn = None) images))"
  by (induction images arbitrary: rows added)
    (simp_all add: reconciled_row_def split: option.splits)

lemma main_sync_Directory:
  assumes "images_dir fs = Directory es"
    and "list_images str_lower (Directory es) = Inr images"
    and "read_existing (captions_csv fs) = Inr existing"
  shows "main_sync str_lower fs =
    (case write_csv (map (reconciled_row existing) images) of
       (content, err) \<Rightarrow>
         ((case err of
             None \<Rightarrow> Inr (length images, length (filter (\<lambda>fn. existing fn = None) images))
           | Some e \<Rightarrow> Inl e),
          fs\<lparr>captions_csv := Some (Text content)\<rparr>))"
  using assms by (simp add: main_sync_def exists_def sync_loop_eq)

lemma main_sync_read_error:
  assumes "images_dir fs = Directory es"
    and "read_existing (captions_csv fs) = Inl e"
  shows "main_sync str_lower fs = (Inl e, fs)"
  using assms by (simp add: main_sync_def exists_def list_images_def iterdir_def)

lemma filename_reconciled_row: "filename (reconciled_row existing fn) = fn"
  by (simp add: reconciled_row_def split: option.splits)

lemma reconciled_row_fields:
  assumes "read_existing csv_file = Inr existing"
  shows "encodable (title (reconciled_row existing fn))
    \<and> encodable (note (reconciled_row existing fn))
    \<and> length (title (reconciled_row existing fn)) \<le> field_limit
    \<and> length (note (reconciled_row existing fn)) \<le> field_limit"
proof (cases "existing fn")
  case None
  then show ?thesis by (simp add: reconciled_row_def encodable_Nil)
next
  case (Some c)
  with read_existing_Inr(2) [OF assms Some] show ?thesis
    by (simp add: reconciled_row_def)
qed

text \<open>
  Claim C2, as amended. When the images directory exists, the caption file can be read,
  and the names of the listed images can be encoded, the Synchronizer ends without
  exception. It writes one row per listed image, in the lister's order, each the
  reconciled row of its image: title and note of the existing store when the filename is
  a key there, blank otherwise. The file it writes is the byte-order mark, the header and
  these records, which the csv reader returns from it when no name is longer than the
  field size limit. The count it reports is the number of listed images that are no key
  of the existing store.
\<close>

theorem sync_rows:
  assumes "images_dir fs = Directory es"
    and "list_images str_lower (Directory es) = Inr images"
    and "read_existing (captions_csv fs) = Inr existing"
    and "\<forall>fn \<in> set images. encodable fn"
  shows "\<exists>rows content.
      main_sync str_lower fs =
        (Inr (length images, length (filter (\<lambda>fn. fn \<notin> dom existing) images)),
         fs\<lparr>captions_csv := Some (Text content)\<rparr>)
    \<and> write_csv rows = (content, None)
    \<and> map filename rows = images
    \<and> rows = map (reconciled_row existing) images
    \<and> content = [65279] @ concat (map writerow
                    (fieldnames # map (\<lambda>r. [filename r, title r, note r]) rows))
    \<and> ((\<forall>fn \<in> set images. length fn \<le> field_limit)
         \<longrightarrow> csv_reader (decode_sig content)
               = Inr (fieldnames # map (\<lambda>r. [filename r, title r, note r]) rows))"
proof -
  let ?rows = "map (reconciled_row existing) images"
  let ?recs = "fieldnames # map (\<lambda>r. [filename r, title r, note r]) ?rows"
  let ?content = "[65279] @ concat (map writerow ?recs)"
  have d: "(\<lambda>fn. fn \<notin> dom existing) = (\<lambda>fn. existing fn = None)"
    by (auto simp: dom_def)
  have recs: "fieldnames # map dict_to_list ?rows = ?recs"
    by (simp add: dict_to_list_def comp_def)
  have f: "map filename ?rows = images"
    by (simp add: comp_def filename_reconciled_row)
  have enc: "\<forall>r \<in> set ?rows. encodable (filename r) \<and> encodable (title r) \<and> encodable (note r)"
    using assms(4) reconciled_row_fields [OF assms(3)] by (simp add: filename_reconciled_row)
  have w: "write_csv ?rows = (?content, None)"
    unfolding write_csv_None recs using enc by simp
  have m: "main_sync str_lower fs =
        (Inr (length images, length (filter (\<lambda>fn. fn \<notin> dom existing) images)),
         fs\<lparr>captions_csv := Some (Text ?content)\<rparr>)"
    unfolding main_sync_Directory [OF assms(1,2,3)] w d by simp
  have r: "csv_reader (decode_sig ?content) = Inr ?recs"
    if lim: "\<forall>fn \<in> set images. length fn \<le> field_limit"
  proof -
    have two: "\<forall>fs \<in> set ?recs. 2 \<le> length fs"
      by (auto simp: fieldnames_def)
    have "\<forall>fs \<in> set ?recs. \<forall>f \<in> set fs. length f \<le> field_limit"
      using lim reconciled_row_fields [OF assms(3)]
      by (auto simp: fieldnames_def lit_def field_limit_def filename_reconciled_row)
    then have "csv_reader (concat (map writerow ?recs)) = Inr ?recs"
      unfolding csv_reader_writerows [OF two] by simp
    then show ?thesis
      by (simp add: decode_sig_def)
  qed
  show ?thesis
    using m w f r by (intro exI [of _ ?rows] exI [of _ ?content]) simp
qed

lemmas sync_eval = main_sync_def exists_def list_images_def iterdir_def is_file_def
  name_suffix_def rfind_def lower_def lower_cp_def IMAGE_EXTS_def write_csv_def writerow_def
  write_field_def needs_quotes_def fieldnames_def dict_to_list_def encodable_def

theorem sync_rows_witness:
  \<open>main_sync lower
      \<lparr>images_path = lit ''album/images'',
       images_dir = Directory [(lit ''b.jpg'', RegularFile), (lit ''a.jpg'', RegularFile)],
       captions_csv = Some (Text (lit ''filename,title,note'' @ [13, 10] @ lit ''a.jpg,X,'' @ [13, 10]
         @ lit ''c.jpg,Y,'' @ [13, 10])),
       out_html = None\<rparr>
   = (Inr (2, 1),
      \<lparr>images_path = lit ''album/images'',
       images_dir = Directory [(lit ''b.jpg'', RegularFile), (lit ''a.jpg'', RegularFile)],
       captions_csv = Some (Text ([65279] @ lit ''filename,title,note'' @ [13, 10]
         @ lit ''a.jpg,X,'' @ [13, 10] @ lit ''b.jpg,,'' @ [13, 10])),
       out_html = None\<rparr>)\<close>
proof -
  let ?es = \<open>[(lit ''b.jpg'', RegularFile), (lit ''a.jpg'', RegularFile)]\<close>
  let ?fs = \<open>\<lparr>images_path = lit ''album/images'', images_dir = Directory ?es,
       captions_csv = Some (Text (lit ''filename,title,note'' @ [13, 10] @ lit ''a.jpg,X,'' @ [13, 10]
         @ lit ''c.jpg,Y,'' @ [13, 10])),
       out_html = None\<rparr>\<close>
  let ?existing = \<open>[lit ''a.jpg'' \<mapsto> \<lparr>title = lit ''X'', note = []\<rparr>,
          lit ''c.jpg'' \<mapsto> \<lparr>title = lit ''Y'', note = []\<rparr>]\<close>
  have h: "images_dir ?fs = Directory ?es"
    by simp
  have i: \<open>list_images lower (Directory ?es) = Inr [lit ''a.jpg'', lit ''b.jpg'']\<close>
    by (simp add: sync_eval lit_def)
  have e: "read_existing (captions_csv ?fs) = Inr ?existing"
    using eval_read by simp
  have n: \<open>\<forall>fn \<in> set [lit ''a.jpg'', lit ''b.jpg'']. encodable fn\<close>
    by (simp add: encodable_def lit_def)
  obtain rows content where
    m: \<open>main_sync lower ?fs =
        (Inr (length [lit ''a.jpg'', lit ''b.jpg''],
              length (filter (\<lambda>fn. fn \<notin> dom ?existing) [lit ''a.jpg'', lit ''b.jpg''])),
         ?fs\<lparr>captions_csv := Some (Text content)\<rparr>)\<close>
    and r: \<open>rows = map (reconciled_row ?existing) [lit ''a.jpg'', lit ''b.jpg'']\<close>
    and c: "content = [65279] @ concat (map writerow
                    (fieldnames # map (\<lambda>r. [filename r, title r, note r]) rows))"
    using sync_rows [OF h i e n] by (elim exE conjE) (rule that; assumption)
  show ?thesis
    unfolding m c r
    by (simp add: reconciled_row_def sync_eval lit_def)
qed

text \<open>
  Claim C2 as stated fails for an image whose name cannot be encoded, as the name is
  that the operating system gives for a file name that is no UTF-8: the Synchronizer ends
  with an exception and leaves a store of the header alone. It fails as well for a prior
  store that is no UTF-8, and for one with a field of 131073 characters: the Synchronizer
  ends with an exception and writes nothing.
\<close>

theorem sync_store_counterexample:
  \<open>main_sync lower
      \<lparr>images_path = lit ''album/images'',
       images_dir = Directory [([56575] @ lit ''.jpg'', RegularFile)],
       captions_csv = None, out_html = None\<rparr>
   = (Inl UnicodeEncodeError,
      \<lparr>images_path = lit ''album/images'',
       images_dir = Directory [([56575] @ lit ''.jpg'', RegularFile)],
       captions_csv = Some (Text ([65279] @ lit ''filename,title,note'' @ [13, 10])),
       out_html = None\<rparr>)
   \<and> main_sync lower
      \<lparr>images_path = lit ''album/images'',
       images_dir = Directory [(lit ''a.jpg'', RegularFile)],
       captions_csv = Some NotUtf8, out_html = None\<rparr>
   = (Inl UnicodeDecodeError,
      \<lparr>images_path = lit ''album/images'',
       images_dir = Directory [(lit ''a.jpg'', RegularFile)],
       captions_csv = Some NotUtf8, out_html = None\<rparr>)
   \<and> main_sync lower
      \<lparr>images_path = lit ''album/images'',
       images_dir = Directory [(lit ''a.jpg'', RegularFile)],
       captions_csv = Some (Text ([65279] @ writerow fieldnames
         @ writerow [lit ''a.jpg'', replicate 131073 120, []])),
       out_html = None\<rparr>
   = (Inl (CsvError FieldLargerThanLimit),
      \<lparr>images_path = lit ''album/images'',
       images_dir = Directory [(lit ''a.jpg'', RegularFile)],
       captions_csv = Some (Text ([65279] @ writerow fieldnames
         @ writerow [lit ''a.jpg'', replicate 131073 120, []])),
       out_html = None\<rparr>)\<close>
proof -
  have a: \<open>main_sync lower
      \<lparr>images_path = lit ''album/images'',
       images_dir = Directory [([56575] @ lit ''.jpg'', RegularFile)],
       captions_csv = None, out_html = None\<rparr>
   = (Inl UnicodeEncodeError,
      \<lparr>images_path = lit ''album/images'',
       images_dir = Directory [([56575] @ lit ''.jpg'', RegularFile)],
       captions_csv = Some (Text ([65279] @ lit ''filename,title,note'' @ [13, 10])),
       out_html = None\<rparr>)\<close>
    by (simp add: sync_eval read_existing_def lit_def)
  have b: \<open>main_sync lower
      \<lparr>images_path = lit ''album/images'',
       images_dir = Directory [(lit ''a.jpg'', RegularFile)],
       captions_csv = Some NotUtf8, out_html = None\<rparr>
   = (Inl UnicodeDecodeError,
      \<lparr>images_path = lit ''album/images'',
       images_dir = Directory [(lit ''a.jpg'', RegularFile)],
       captions_csv = Some NotUtf8, out_html = None\<rparr>)\<close>
    by (rule main_sync_read_error [of _ \<open>[(lit ''a.jpg'', RegularFile)]\<close>])
      (simp_all add: read_existing_def read_text_def)
  let ?long = \<open>[\<lparr>title = replicate 131073 120, note = [], filename = lit ''a.jpg''\<rparr>]\<close>
  let ?content = \<open>[65279] @ writerow fieldnames @ writerow [lit ''a.jpg'', replicate 131073 120, []]\<close>
  have "write_csv ?long = (?content, None)"
    unfolding write_csv_None by (simp add: dict_to_list_def encodable_def lit_def list_all_iff)
  then have "read_existing (Some (Text ?content)) = Inl (CsvError FieldLargerThanLimit)"
    by (simp add: read_write_csv field_limit_def)
  then have c: \<open>main_sync lower
      \<lparr>images_path = lit ''album/images'',
       images_dir = Directory [(lit ''a.jpg'', RegularFile)],
       captions_csv = Some (Text ?content), out_html = None\<rparr>
   = (Inl (CsvError FieldLargerThanLimit),
      \<lparr>images_path = lit ''album/images'',
       images_dir = Directory [(lit ''a.jpg'', RegularFile)],
       captions_csv = Some (Text ?content), out_html = None\<rparr>)\<close>
    by (intro main_sync_read_error [of _ \<open>[(lit ''a.jpg'', RegularFile)]\<close>]) simp_all
  from a b c show ?thesis
    by (simp only: simp_thms)
qed

subsection \<open>Running the Synchronizer twice\<close>

lemma fold_read_back_other:
  "k = [] \<or> (\<forall>r \<in> set rows. strip (filename r) \<noteq> k) \<Longrightarrow> fold read_back_row rows m k = m k"
  by (induction rows arbitrary: m) (auto simp: read_back_row_def)

lemma fold_read_back_same:
  assumes "k \<noteq> []"
  shows "\<exists>r \<in> set rows. strip (filename r) = k \<Longrightarrow>
    \<forall>r \<in> set rows. strip (filename r) = k \<longrightarrow> strip (title r) = t \<and> strip (note r) = n \<Longrightarrow>
    fold read_back_row rows m k = Some \<lparr>title = t, note = n\<rparr>"
proof (induction rows arbitrary: m)
  case Nil
  then show ?case by simp
next
  case (Cons r rs)
  show ?case
  proof (cases "\<exists>r' \<in> set rs. strip (filename r') = k")
    case True
    then show ?thesis
      using Cons.IH [of "read_back_row r m"] Cons.prems(2) by simp
  next
    case False
    then have r: "strip (filename r) = k"
      using Cons.prems(1) by auto
    then have "strip (title r) = t" "strip (note r) = n"
      using Cons.prems(2) by auto
    with r assms have "read_back_row r m k = Some \<lparr>title = t, note = n\<rparr>"
      by (simp add: read_back_row_def)
    moreover have "fold read_back_row rs (read_back_row r m) k = read_back_row r m k"
      using False by (intro fold_read_back_other) auto
    ultimately show ?thesis by simp
  qed
qed

lemma trimmedD:
  "trimmed m \<Longrightarrow> m k = Some c \<Longrightarrow>
   k \<noteq> [] \<and> strip k = k \<and> strip (title c) = title c \<and> strip (note c) = note c"
  unfolding trimmed_def by blast

lemma trimmed_key: "trimmed m \<Longrightarrow> k = [] \<or> strip k \<noteq> k \<Longrightarrow> m k = None"
  using trimmedD [of m k] by (cases "m k") blast+


lemma read_back_row_trimmed: "trimmed m \<Longrightarrow> trimmed (read_back_row r m)"
  by (auto simp: trimmed_def read_back_row_def strip_idem)

lemma fold_read_back_row_trimmed: "trimmed m \<Longrightarrow> trimmed (fold read_back_row rows m)"
  by (induction rows arbitrary: m) (simp_all add: read_back_row_trimmed)

lemma fold_read_back_trimmed: "trimmed (fold read_back_row rows Map.empty)"
  by (rule fold_read_back_row_trimmed) (simp add: trimmed_def)

lemma reconciled_same_row:
  assumes inj: "inj_on strip (set images)" and n: "n \<in> set images" and k: "strip n = n"
    and r: "r \<in> set (map (reconciled_row e1) images)" and s: "strip (filename r) = n"
  shows "r = reconciled_row e1 n"
proof -
  from r obtain n' where n': "n' \<in> set images" "r = reconciled_row e1 n'"
    unfolding set_map by blast
  from s n'(2) have "strip n' = n"
    by (simp only: filename_reconciled_row)
  with k have "strip n' = strip n"
    by simp
  then have "n' = n"
    by (rule inj_onD [OF inj _ n'(1) n])
  with n'(2) show ?thesis by simp
qed

lemma reconciled_again:
  assumes e1: "trimmed e1" and inj: "inj_on strip (set images)" and n: "n \<in> set images"
  shows "reconciled_row (fold read_back_row (map (reconciled_row e1) images) Map.empty) n
    = reconciled_row e1 n"
proof -
  let ?rows = "map (reconciled_row e1) images"
  let ?e2 = "fold read_back_row ?rows Map.empty"
  have e2: "trimmed ?e2"
    by (rule fold_read_back_trimmed)
  show ?thesis
  proof (cases "n = [] \<or> strip n \<noteq> n")
    case True
    have "e1 n = None"
      using True by (rule trimmed_key [OF e1])
    moreover have "?e2 n = None"
      using True by (rule trimmed_key [OF e2])
    ultimately show ?thesis
      by (simp only: reconciled_row_def option.case)
  next
    case False
    then have k: "n \<noteq> []" "strip n = n" by blast+
    have st: "strip (title (reconciled_row e1 n)) = title (reconciled_row e1 n)
      \<and> strip (note (reconciled_row e1 n)) = note (reconciled_row e1 n)"
    proof (cases "e1 n")
      case None
      then show ?thesis by (simp add: reconciled_row_def strip_Nil)
    next
      case (Some c)
      with trimmedD [OF e1 Some] show ?thesis by (simp add: reconciled_row_def)
    qed
    have "filename (reconciled_row e1 n) = n"
      by (rule filename_reconciled_row)
    with n k(2) have ex: "\<exists>r \<in> set ?rows. strip (filename r) = n"
      by (intro bexI [of _ "reconciled_row e1 n"]) simp_all
    have "\<forall>r \<in> set ?rows. strip (filename r) = n \<longrightarrow>
        strip (title r) = title (reconciled_row e1 n) \<and> strip (note r) = note (reconciled_row e1 n)"
    proof (intro ballI impI)
      fix r
      assume "r \<in> set ?rows" "strip (filename r) = n"
      then have "r = reconciled_row e1 n"
        by (rule reconciled_same_row [OF inj n k(2)])
      with st show "strip (title r) = title (reconciled_row e1 n)
          \<and> strip (note r) = note (reconciled_row e1 n)"
        by simp
    qed
    then have "?e2 n = Some \<lparr>title = title (reconciled_row e1 n), note = note (reconciled_row e1 n)\<rparr>"
      by (rule fold_read_back_same [OF k(1) ex])
    moreover have "reconciled_row e1 n = \<lparr>title = title (reconciled_row e1 n),
        note = note (reconciled_row e1 n), filename = n\<rparr>"
      by (simp add: reconciled_row_def split: option.splits)
    ultimately show ?thesis
      by (simp add: reconciled_row_def [of ?e2])
  qed
qed

lemma main_sync_success:
  assumes "images_dir fs = Directory es"
    and "list_images str_lower (Directory es) = Inr images"
    and "main_sync str_lower fs = (Inr report, fs1)"
  shows "\<exists>existing content.
      read_existing (captions_csv fs) = Inr existing
    \<and> write_csv (map (reconciled_row existing) images) = (content, None)
    \<and> fs1 = fs\<lparr>captions_csv := Some (Text content)\<rparr>"
proof (cases "read_existing (captions_csv fs)")
  case (Inl e)
  with assms(3) main_sync_read_error [OF assms(1) Inl, of str_lower] show ?thesis
    by simp
next
  case (Inr existing)
  obtain content err where w: "write_csv (map (reconciled_row existing) images) = (content, err)"
    by (cases "write_csv (map (reconciled_row existing) images)") blast
  from assms(3) have "err = None \<and> fs1 = fs\<lparr>captions_csv := Some (Text content)\<rparr>"
    unfolding main_sync_Directory [OF assms(1,2) Inr] w by (cases err) auto
  with Inr w show ?thesis
    by blast
qed

lemma list_images_enumeration:
  assumes "list_images str_lower (Directory es) = Inr images"
    and "set es' = set es" and "distinct (map fst es)" and "distinct (map fst es')"
    and "inj_on str_lower (set images)"
  shows "list_images str_lower (Directory es') = Inr images"
proof -
  define P where "P = (\<lambda>p :: dir_entry. snd p = RegularFile \<and> has_image_extension (fst p))"
  have i: "images = sort_key str_lower (map fst (filter P es))"
    using assms(1) unfolding P_def list_images_Directory by simp
  have "set images = fst ` {p \<in> set es. P p}"
    unfolding i by simp
  with assms(5) have inj: "inj_on str_lower (fst ` {p \<in> set es. P p})"
    by simp
  have "list_images str_lower (Directory es') = Inr (sort_key str_lower (map fst (filter P es')))"
    unfolding P_def by (rule list_images_Directory)
  then show ?thesis
    unfolding i by (simp only: listing_determined(1) [OF assms(2,3,4) inj])
qed

text \<open>
  Claim C3, as amended. Let a run of the Synchronizer end without exception, and let no
  two listed image filenames become equal by trimming whitespace. A second run on the
  same directory leaves the caption file exactly as the first run wrote it; this holds
  for the same enumeration of the directory, and for every enumeration of the same
  entries when no two listed names have the same lower-cased form. When no listed name
  is longer than the field size limit, the second run ends without exception too.
\<close>

theorem sync_idempotent:
  assumes "images_dir fs = Directory es"
    and "list_images str_lower (Directory es) = Inr images"
    and "main_sync str_lower fs = (Inr report, fs1)"
    and "inj_on strip (set images)"
    and "es' = es \<or> (set es' = set es \<and> distinct (map fst es) \<and> distinct (map fst es')
            \<and> inj_on str_lower (set images))"
  shows "captions_csv (snd (main_sync str_lower (fs1\<lparr>images_dir := Directory es'\<rparr>)))
      = captions_csv fs1
    \<and> (\<exists>rows content. captions_csv fs1 = Some (Text content) \<and> write_csv rows = (content, None)
          \<and> map filename rows = images)
    \<and> ((\<forall>fn \<in> set images. length fn \<le> field_limit)
         \<longrightarrow> (\<exists>report'. main_sync str_lower (fs1\<lparr>images_dir := Directory es'\<rparr>)
                = (Inr report', fs1\<lparr>images_dir := Directory es'\<rparr>)))"
proof -
  obtain e1 content where e1: "read_existing (captions_csv fs) = Inr e1"
    and w: "write_csv (map (reconciled_row e1) images) = (content, None)"
    and fs1: "fs1 = fs\<lparr>captions_csv := Some (Text content)\<rparr>"
    using main_sync_success [OF assms(1,2,3)] by (elim exE conjE) (rule that; assumption)
  let ?rows = "map (reconciled_row e1) images"
  let ?fs2 = "fs1\<lparr>images_dir := Directory es'\<rparr>"
  let ?lim = "\<forall>r \<in> set ?rows. length (filename r) \<le> field_limit \<and> length (title r) \<le> field_limit
          \<and> length (note r) \<le> field_limit"
  have t1: "trimmed e1"
    using e1 by (rule read_existing_Inr(1))
  have d2: "images_dir ?fs2 = Directory es'"
    by simp
  have c2: "captions_csv ?fs2 = Some (Text content)"
    by (simp add: fs1)
  have l2: "list_images str_lower (Directory es') = Inr images"
    using assms(5)
  proof
    assume "es' = es"
    with assms(2) show ?thesis by simp
  next
    assume "set es' = set es \<and> distinct (map fst es) \<and> distinct (map fst es')
            \<and> inj_on str_lower (set images)"
    then show ?thesis
      using list_images_enumeration [OF assms(2)] by blast
  qed
  have r2: "read_existing (captions_csv ?fs2) =
    (if ?lim then Inr (fold read_back_row ?rows Map.empty)
     else Inl (CsvError FieldLargerThanLimit))"
    unfolding c2 by (rule read_write_csv [OF w])
  have again: "map (reconciled_row (fold read_back_row ?rows Map.empty)) images = ?rows"
    by (rule map_ext) (simp add: reconciled_again [OF t1 assms(4)])
  have ok: "\<exists>report'. main_sync str_lower ?fs2 = (Inr report', ?fs2)" if ?lim
  proof -
    from that r2 have e2: "read_existing (captions_csv ?fs2) = Inr (fold read_back_row ?rows Map.empty)"
      by simp
    have "?fs2\<lparr>captions_csv := Some (Text content)\<rparr> = ?fs2"
      by (simp add: fs1)
    then show ?thesis
      unfolding main_sync_Directory [OF d2 l2 e2] again w by simp
  qed
  have bad: "main_sync str_lower ?fs2 = (Inl (CsvError FieldLargerThanLimit), ?fs2)" if "\<not> ?lim"
  proof -
    from that r2 have "read_existing (captions_csv ?fs2) = Inl (CsvError FieldLargerThanLimit)"
      by simp
    then show ?thesis
      by (rule main_sync_read_error [OF d2])
  qed
  have a: "captions_csv (snd (main_sync str_lower ?fs2)) = captions_csv fs1"
  proof (cases ?lim)
    case True
    from ok [OF True] obtain report' where "main_sync str_lower ?fs2 = (Inr report', ?fs2)"
      by blast
    then show ?thesis by simp
  next
    case False
    from bad [OF False] show ?thesis by simp
  qed
  have b: "\<exists>rows content. captions_csv fs1 = Some (Text content) \<and> write_csv rows = (content, None)
          \<and> map filename rows = images"
    using w by (intro exI [of _ ?rows] exI [of _ content])
      (simp add: fs1 comp_def filename_reconciled_row)
  have c: "\<exists>report'. main_sync str_lower ?fs2 = (Inr report', ?fs2)"
    if "\<forall>fn \<in> set images. length fn \<le> field_limit"
  proof -
    have ?lim
      using that reconciled_row_fields [OF e1] by (simp add: filename_reconciled_row)
    then show ?thesis by (rule ok)
  qed
  from a b c show ?thesis
    by blast
qed

lemma eval_sync:
  \<open>main_sync lower
      \<lparr>images_path = lit ''album/images'',
       images_dir = Directory [(lit ''b.jpg'', RegularFile), (lit ''a.jpg'', RegularFile)],
       captions_csv = Some (Text (lit ''filename,title,note'' @ [13, 10] @ lit ''a.jpg,X,'' @ [13, 10]
         @ lit ''c.jpg,Y,'' @ [13, 10])),
       out_html = None\<rparr>
   = (Inr (2, 1),
      \<lparr>images_path = lit ''album/images'',
       images_dir = Directory [(lit ''b.jpg'', RegularFile), (lit ''a.jpg'', RegularFile)],
       captions_csv = Some (Text ([65279] @ lit ''filename,title,note'' @ [13, 10]
         @ lit ''a.jpg,X,'' @ [13, 10] @ lit ''b.jpg,,'' @ [13, 10])),
       out_html = None\<rparr>)\<close>
  by (simp add: sync_eval reader_eval)

theorem sync_idempotent_witness:
  \<open>captions_csv (snd (main_sync lower
      \<lparr>images_path = lit ''album/images'',
       images_dir = Directory [(lit ''a.jpg'', RegularFile), (lit ''b.jpg'', RegularFile)],
       captions_csv = Some (Text ([65279] @ lit ''filename,title,note'' @ [13, 10]
         @ lit ''a.jpg,X,'' @ [13, 10] @ lit ''b.jpg,,'' @ [13, 10])),
       out_html = None\<rparr>))
   = Some (Text ([65279] @ lit ''filename,title,note'' @ [13, 10]
       @ lit ''a.jpg,X,'' @ [13, 10] @ lit ''b.jpg,,'' @ [13, 10]))\<close>
proof -
  let ?es = \<open>[(lit ''b.jpg'', RegularFile), (lit ''a.jpg'', RegularFile)]\<close>
  let ?es' = \<open>[(lit ''a.jpg'', RegularFile), (lit ''b.jpg'', RegularFile)]\<close>
  let ?fs = \<open>\<lparr>images_path = lit ''album/images'',
       images_dir = Directory [(lit ''b.jpg'', RegularFile), (lit ''a.jpg'', RegularFile)],
       captions_csv = Some (Text (lit ''filename,title,note'' @ [13, 10] @ lit ''a.jpg,X,'' @ [13, 10]
         @ lit ''c.jpg,Y,'' @ [13, 10])),
       out_html = None\<rparr>\<close>
  let ?fs1 = \<open>\<lparr>images_path = lit ''album/images'',
       images_dir = Directory [(lit ''b.jpg'', RegularFile), (lit ''a.jpg'', RegularFile)],
       captions_csv = Some (Text ([65279] @ lit ''filename,title,note'' @ [13, 10]
         @ lit ''a.jpg,X,'' @ [13, 10] @ lit ''b.jpg,,'' @ [13, 10])),
       out_html = None\<rparr>\<close>
  have h: "images_dir ?fs = Directory ?es"
    by simp
  have l: \<open>list_images lower (Directory ?es) = Inr [lit ''a.jpg'', lit ''b.jpg'']\<close>
    by (simp add: sync_eval lit_def)
  have i: \<open>inj_on strip (set [lit ''a.jpg'', lit ''b.jpg''])\<close>
    by (simp add: strip_def lstrip_def rstrip_def isspace_def lit_def)
  have d: \<open>?es' = ?es \<or> (set ?es' = set ?es \<and> distinct (map fst ?es) \<and> distinct (map fst ?es')
            \<and> inj_on lower (set [lit ''a.jpg'', lit ''b.jpg'']))\<close>
    by (simp add: lit_def lower_def lower_cp_def insert_commute)
  have "?fs1\<lparr>images_dir := Directory ?es'\<rparr> = \<lparr>images_path = lit ''album/images'',
     images_dir = Directory [(lit ''a.jpg'', RegularFile), (lit ''b.jpg'', RegularFile)],
     captions_csv = Some (Text ([65279] @ lit ''filename,title,note'' @ [13, 10]
       @ lit ''a.jpg,X,'' @ [13, 10] @ lit ''b.jpg,,'' @ [13, 10])),
     out_html = None\<rparr>"
    by simp
  then show ?thesis
    using sync_idempotent [OF h l eval_sync i d] by simp
qed

text \<open>
  Claim C3 as stated fails when one filename is another with whitespace in front. With
  the images \<open>a.jpg\<close> and \<open>a.jpg\<close> after an ideographic space (U+3000, which has no
  lower-case form), and the title \<open>X\<close> stored for \<open>a.jpg\<close>, the first run keeps the
  title and the second run writes a file without it. It fails as well for the images
  \<open>a.JPG\<close> and \<open>a.jpg\<close> when the directory enumerates them in the other order at the
  second run: the two rows change places.
\<close>

theorem sync_twice_counterexample:
  \<open>captions_csv (snd (main_sync lower
      \<lparr>images_path = lit ''album/images'',
       images_dir = Directory [(lit ''a.jpg'', RegularFile), (12288 # lit ''a.jpg'', RegularFile)],
       captions_csv = Some (Text (lit ''filename,title,note'' @ [13, 10] @ lit ''a.jpg,X,'' @ [13, 10])),
       out_html = None\<rparr>))
   = Some (Text ([65279] @ lit ''filename,title,note'' @ [13, 10] @ lit ''a.jpg,X,'' @ [13, 10]
       @ [12288] @ lit ''a.jpg,,'' @ [13, 10]))
   \<and> captions_csv (snd (main_sync lower (snd (main_sync lower
      \<lparr>images_path = lit ''album/images'',
       images_dir = Directory [(lit ''a.jpg'', RegularFile), (12288 # lit ''a.jpg'', RegularFile)],
       captions_csv = Some (Text (lit ''filename,title,note'' @ [13, 10] @ lit ''a.jpg,X,'' @ [13, 10])),
       out_html = None\<rparr>))))
   = Some (Text ([65279] @ lit ''filename,title,note'' @ [13, 10] @ lit ''a.jpg,,'' @ [13, 10]
       @ [12288] @ lit ''a.jpg,,'' @ [13, 10]))
   \<and> set [(lit ''a.jpg'', RegularFile), (lit ''a.JPG'', RegularFile)]
     = set [(lit ''a.JPG'', RegularFile), (lit ''a.jpg'', RegularFile)]
   \<and> captions_csv (snd (main_sync lower
      \<lparr>images_path = lit ''album/images'',
       images_dir = Directory [(lit ''a.JPG'', RegularFile), (lit ''a.jpg'', RegularFile)],
       captions_csv = None,
       out_html = None\<rparr>))
   = Some (Text ([65279] @ lit ''filename,title,note'' @ [13, 10] @ lit ''a.JPG,,'' @ [13, 10]
       @ lit ''a.jpg,,'' @ [13, 10]))
   \<and> captions_csv (snd (main_sync lower ((snd (main_sync lower
      \<lparr>images_path = lit ''album/images'',
       images_dir = Directory [(lit ''a.JPG'', RegularFile), (lit ''a.jpg'', RegularFile)],
       captions_csv = None,
       out_html = None\<rparr>))
      \<lparr>images_dir := Directory [(lit ''a.jpg'', RegularFile), (lit ''a.JPG'', RegularFile)]\<rparr>)))
   = Some (Text ([65279] @ lit ''filename,title,note'' @ [13, 10] @ lit ''a.jpg,,'' @ [13, 10]
       @ lit ''a.JPG,,'' @ [13, 10]))\<close>
proof -
  have \<open>set [(lit ''a.jpg'', RegularFile), (lit ''a.JPG'', RegularFile)]
     = set [(lit ''a.JPG'', RegularFile), (lit ''a.jpg'', RegularFile)]\<close>
    by (simp add: insert_commute)
  then show ?thesis
    by (simp add: sync_eval reader_eval)
qed

section \<open>A missing images directory\<close>

text \<open>
  Claim C9. When the images directory does not exist, both entry points end with a
  \<open>SystemExit\<close> whose message ends with the path of the directory, the exit status
  is 1, and the file system is left as it was.
\<close>

theorem missing_images_directory:
  assumes "images_dir fs = Missing"
  shows "main_sync str_lower fs = (Inl (SystemExit (missing_message (images_path fs))), fs)
    \<and> main_album str_lower now fs = (Inl (SystemExit (missing_message (images_path fs))), fs)
    \<and> suffix (images_path fs) (missing_message (images_path fs))
    \<and> exit_status (fst (main_sync str_lower fs)) = 1
    \<and> exit_status (fst (main_album str_lower now fs)) = 1"
  using assms
  by (simp add: main_sync_def main_album_def exists_def exit_status_def missing_message_def
      suffix_def)

theorem missing_images_directory_witness:
  \<open>main_sync lower \<lparr>images_path = lit ''/repo/album/images'', images_dir = Missing,
       captions_csv = Some (Text (lit ''filename,title,note'')), out_html = None\<rparr>
   = (Inl (SystemExit (lit ''images '' @ [12487, 12451, 12524, 12463, 12488, 12522, 12364, 35211,
        12388, 12363, 12426, 12414, 12379, 12435] @ lit '': /repo/album/images'')),
      \<lparr>images_path = lit ''/repo/album/images'', images_dir = Missing,
       captions_csv = Some (Text (lit ''filename,title,note'')), out_html = None\<rparr>)\<close>
  using missing_images_directory [of \<open>\<lparr>images_path = lit ''/repo/album/images'',
       images_dir = Missing, captions_csv = Some (Text (lit ''filename,title,note'')),
       out_html = None\<rparr>\<close> lower]
  by (simp add: missing_message_def lit_def)

section \<open>What the entry points leave behind\<close>

text \<open>
  When the images directory exists and the caption file can be read, the Renderer builds
  the page from the blocks of its loop. It writes the page when the page can be encoded;
  otherwise it ends with an exception and leaves the page empty. An entry point that ends
  with an exception before it opens its output has written nothing.
\<close>

lemma main_album_page:
  assumes "images_dir fs = Directory es"
    and "load_captions (captions_csv fs) = Inr captions"
  shows "\<exists>images html.
      list_images_album str_lower (Directory es) = Inr images
    \<and> html = build_html (concat (blocks_loop captions images [])) now
    \<and> main_album str_lower now fs =
        (if encodable html then (Inr (length images), fs\<lparr>out_html := Some (Text html)\<rparr>)
         else (Inl UnicodeEncodeError, fs\<lparr>out_html := Some (Text [])\<rparr>))"
proof -
  obtain images where i: "list_images_album str_lower (Directory es) = Inr images"
    by (simp add: list_images_album_def iterdir_def)
  show ?thesis
    using assms i by (simp add: main_album_def exists_def Let_def)
qed

lemma write_csv_error:
  assumes "write_csv rows = (content, Some e)"
  shows "e = UnicodeEncodeError" and "encodable content"
proof -
  have "err = None \<or> err = Some UnicodeEncodeError" if "write_records out rs = (c, err)"
    for out rs c err
    using that by (induction rs arbitrary: out) (auto split: if_splits)
  with assms show "e = UnicodeEncodeError"
    unfolding write_csv_def by fastforce
  show "encodable content"
    using write_csv_encodable [of rows] assms by simp
qed

lemma main_sync_error_store:
  assumes "main_sync str_lower fs = (Inl e, fs')"
  shows "fs' = fs
   \<or> (e = UnicodeEncodeError
      \<and> (\<exists>content. fs' = fs\<lparr>captions_csv := Some (Text content)\<rparr> \<and> encodable content))"
  using assms
  by (auto simp: main_sync_def split: sum.splits prod.splits option.splits if_splits
      dest: write_csv_error)

lemma main_album_error_page:
  assumes "main_album str_lower now fs = (Inl e, fs')"
  shows "fs' = fs \<or> (e = UnicodeEncodeError \<and> fs' = fs\<lparr>out_html := Some (Text [])\<rparr>)"
  using assms by (auto simp: main_album_def Let_def split: sum.splits if_splits)

end
